theory Spec2Isabelle
  imports Main "HOL-Library.Word" "HOL-Library.Signed_Division"
begin

section \<open>QueryRunner: data model (main.go)\<close>

text \<open>
  A Go \<open>float64\<close> is kept as its 64-bit IEEE pattern: the program only moves such values
  around. A value decoded into \<open>interface{}\<close> is a JSON tree; \<open>json.RawMessage\<close> is the
  raw bytes. A Go \<open>error\<close> built by \<open>fmt.Errorf\<close> is identified by its message, so a
  possibly-nil error is a \<open>string option\<close> and a possibly-nil pointer is an \<open>option\<close>.
\<close>

type_synonym float64 = "64 word"

datatype json =
    JNull
  | JBool bool
  | JNum float64
  | JStr string
  | JArr "json list"
  | JObj "(string \<times> json) list"

record SearchHit =
  Index :: string
  ID :: string
  Score :: float64
  Fields :: string

record SearchResult =
  Status :: json
  Total :: int
  Hits :: "SearchHit list"
  Took :: int
  MaxScore :: float64

record BatchSearcher =
  baseURL :: string
  username :: string
  password :: string

record QueryResult =
  QueryIndex :: int
  Result :: "SearchResult option"
  Error :: "string option"

text \<open>The zero value of \<open>QueryResult\<close>, which \<open>make([]QueryResult, n)\<close> fills the slice with.\<close>

definition zeroQueryResult :: QueryResult where
  "zeroQueryResult = \<lparr>QueryIndex = 0, Result = None, Error = None\<rparr>"

subsection \<open>The HTTP collaborator\<close>

record Request =
  Method :: string
  URL :: string
  Header :: "(string \<times> string) list"
  ReqBody :: string

text \<open>
  A response as \<open>performSearch\<close> reads it: the status code and what
  \<open>ioutil.ReadAll(resp.Body)\<close> gives, an error or the bytes.
\<close>

record Response =
  StatusCode :: int
  RespBody :: "string + string"

text \<open>
  The library calls whose results the program cannot determine are parameters:
  \<open>url_error\<close> is the parse failure of \<open>http.NewRequestWithContext\<close> (None: the URL is
  accepted), \<open>EncodeToString\<close> is \<open>base64.StdEncoding.EncodeToString\<close>, \<open>Do\<close> is
  the exchange with the server, \<open>bs.client.Do\<close> together with the read of the body (its
  first argument tells whether the request's context is cancelled before the exchange
  has completed; the client's 30 second timeout shows as an error result),
  and \<open>Unmarshal\<close> is \<open>json.Unmarshal\<close> into a \<open>SearchResult\<close>.
\<close>

record Transport =
  url_error :: "string \<Rightarrow> string option"
  EncodeToString :: "string \<Rightarrow> string"
  Do :: "bool \<Rightarrow> Request \<Rightarrow> string + Response"
  Unmarshal :: "string \<Rightarrow> string + SearchResult"

text \<open>The verb \<open>%d\<close> of \<open>fmt\<close>: decimal digits, with a minus sign below zero.\<close>

fun digits :: "nat \<Rightarrow> string" where
  "digits n = (if n < 10 then [char_of (48 + n)]
               else digits (n div 10) @ [char_of (48 + n mod 10)])"

declare digits.simps [simp del]

definition fmt_d :: "int \<Rightarrow> string" where
  "fmt_d k = (if k < 0 then CHR ''-'' # digits (nat (- k)) else digits (nat k))"

definition createSearchPayload :: "string \<Rightarrow> string \<times> string option" where
  "createSearchPayload query = (query, None)"

definition NewRequestWithContext ::
  "Transport \<Rightarrow> string \<Rightarrow> string \<Rightarrow> string \<Rightarrow> string + Request" where
  "NewRequestWithContext tr method url body =
     (case url_error tr url of
        Some err \<Rightarrow> Inl err
      | None \<Rightarrow> Inr \<lparr>Method = method, URL = url, Header = [], ReqBody = body\<rparr>)"

definition HeaderAdd :: "string \<Rightarrow> string \<Rightarrow> Request \<Rightarrow> Request" where
  "HeaderAdd k v req = req\<lparr>Header := Header req @ [(k, v)]\<rparr>"

text \<open>
  \<open>performSearch\<close> returns the Go pair \<open>(*SearchResult, error)\<close>. The argument \<open>ctx\<close> is
  the state of the context handed to the request: True when it is cancelled.
\<close>

definition performSearch ::
  "Transport \<Rightarrow> BatchSearcher \<Rightarrow> bool \<Rightarrow> string \<Rightarrow> string
     \<Rightarrow> SearchResult option \<times> string option" where
  "performSearch tr bs ctx indexName query =
     (let url = baseURL bs @ ''/api/index/'' @ indexName @ ''/query'' in
      case createSearchPayload query of
        (payload, Some err) \<Rightarrow> (None, Some (''failed to create payload: '' @ err))
      | (payload, None) \<Rightarrow>
      (case NewRequestWithContext tr ''POST'' url payload of
        Inl err \<Rightarrow> (None, Some (''failed to create request: '' @ err))
      | Inr req0 \<Rightarrow>
        let auth = EncodeToString tr (username bs @ '':'' @ password bs);
            req = HeaderAdd ''Content-Type'' ''application/json''
                    (HeaderAdd ''Authorization'' (''Basic '' @ auth) req0)
        in
        (case Do tr ctx req of
          Inl err \<Rightarrow> (None, Some (''failed to execute request: '' @ err))
        | Inr resp \<Rightarrow>
          (case RespBody resp of
            Inl err \<Rightarrow> (None, Some (''failed to read response: '' @ err))
          | Inr body \<Rightarrow>
            if StatusCode resp \<noteq> 200
            then (None, Some (''server returned status '' @ fmt_d (StatusCode resp)
                               @ '': '' @ body))
            else
            (case Unmarshal tr body of
              Inl err \<Rightarrow> (None, Some (''failed to parse response: '' @ err))
            | Inr result \<Rightarrow> (Some result, None))))))"

text \<open>The request that \<open>performSearch\<close> hands to the client.\<close>

definition searchRequest :: "Transport \<Rightarrow> BatchSearcher \<Rightarrow> string \<Rightarrow> string \<Rightarrow> Request" where
  "searchRequest t b idx q =
     \<lparr>Method = ''POST'', URL = baseURL b @ ''/api/index/'' @ idx @ ''/query'',
      Header = [(''Authorization'', ''Basic '' @ EncodeToString t (username b @ '':'' @ password b)),
                (''Content-Type'', ''application/json'')],
      ReqBody = q\<rparr>"

section \<open>RunBatchSearch as a transition system\<close>

text \<open>
  The arguments of one call of \<open>RunBatchSearch\<close>, with the receiver and the transport.
\<close>

record config =
  tr :: Transport
  bs :: BatchSearcher
  indexName :: string
  queries :: "string list"
  batchSize :: int

text \<open>
  Program counter of the calling goroutine:
  \<open>MInit\<close> before \<open>make(chan struct{}, batchSize)\<close> and \<open>make([]QueryResult, len(queries))\<close>;
  \<open>MLoop i\<close> at the head of the \<open>range\<close> loop for index \<open>i\<close>;
  \<open>MSend i\<close> after \<open>wg.Add(1)\<close>, at \<open>rateLimiter <- struct{}{}\<close>;
  \<open>MGo i\<close> at the \<open>go\<close> statement;
  \<open>MWait\<close> at \<open>wg.Wait()\<close>; \<open>MReturned\<close> after \<open>return\<close>;
  \<open>MPanic\<close> when the process has died of a run-time panic.
\<close>

datatype main_pc = MInit | MLoop nat | MSend nat | MGo nat | MWait | MReturned | MPanic

text \<open>
  Program counter of the goroutine for one index, with its locals \<open>(result, err)\<close> once
  \<open>performSearch\<close> has returned:
  \<open>GNone\<close> not started; \<open>GStart\<close> started, before the call; \<open>GInCall\<close> inside
  \<open>performSearch\<close>, the exchange with the server (\<open>client.Do\<close> and the read of the body)
  not yet completed; \<open>GExch\<close> still inside \<open>performSearch\<close>, the exchange completed and
  its outcome fixed, before the status check, the decoding and the \<open>return\<close>;
  \<open>GGot\<close> at \<open>if err != nil\<close>; \<open>GCounted\<close> after \<open>atomic.AddInt64\<close>;
  \<open>GWritten\<close> after the store to \<open>results[queryIndex]\<close>, at the deferred
  \<open><-rateLimiter\<close>; \<open>GReleased\<close> at the deferred \<open>wg.Done()\<close>; \<open>GDone\<close> finished.
\<close>

datatype gstate =
    GNone
  | GStart
  | GInCall
  | GExch "SearchResult option \<times> string option"
  | GGot "SearchResult option \<times> string option"
  | GCounted "SearchResult option \<times> string option"
  | GWritten "SearchResult option \<times> string option"
  | GReleased "SearchResult option \<times> string option"
  | GDone "SearchResult option \<times> string option"

text \<open>
  The shared state. \<open>rateLimiter\<close> is the number of elements in the channel's buffer,
  \<open>wg\<close> the WaitGroup counter, \<open>cancelled\<close> the state of \<open>ctx\<close>. \<open>calls\<close> is
  instrumentation: the indices for which \<open>performSearch\<close> was entered, in order of entry.
  The counters are \<open>int64\<close> in the source; they count at most \<open>len(queries)\<close> increments,
  which a Go \<open>int\<close> bounds, so they cannot wrap and are modelled by \<open>int\<close>.
\<close>

record state =
  mpc :: main_pc
  wg :: int
  rateLimiter :: nat
  gs :: "gstate list"
  successCount :: int
  failureCount :: int
  results :: "QueryResult list"
  cancelled :: bool
  calls :: "nat list"

definition init :: "config \<Rightarrow> bool \<Rightarrow> state" where
  "init c ctx =
     \<lparr>mpc = MInit, wg = 0, rateLimiter = 0,
      gs = replicate (length (queries c)) GNone,
      successCount = 0, failureCount = 0, results = [],
      cancelled = ctx, calls = []\<rparr>"

text \<open>
  One step of the calling goroutine; None when it is blocked or has finished.
  \<open>make(chan struct{}, n)\<close> panics for negative \<open>n\<close>. A send on the buffered channel
  proceeds while the buffer is not full; \<open>wg.Wait\<close> proceeds when the counter is zero.
\<close>

definition main_step :: "config \<Rightarrow> state \<Rightarrow> state option" where
  "main_step c s =
     (case mpc s of
        MInit \<Rightarrow>
          if batchSize c < 0 then Some (s\<lparr>mpc := MPanic\<rparr>)
          else Some (s\<lparr>results := replicate (length (queries c)) zeroQueryResult,
                       mpc := MLoop 0\<rparr>)
      | MLoop i \<Rightarrow>
          if i < length (queries c) then Some (s\<lparr>wg := wg s + 1, mpc := MSend i\<rparr>)
          else Some (s\<lparr>mpc := MWait\<rparr>)
      | MSend i \<Rightarrow>
          if int (rateLimiter s) < batchSize c
          then Some (s\<lparr>rateLimiter := Suc (rateLimiter s), mpc := MGo i\<rparr>)
          else None
      | MGo i \<Rightarrow> Some (s\<lparr>gs := (gs s)[i := GStart], mpc := MLoop (Suc i)\<rparr>)
      | MWait \<Rightarrow> if wg s = 0 then Some (s\<lparr>mpc := MReturned\<rparr>) else None
      | MReturned \<Rightarrow> None
      | MPanic \<Rightarrow> None)"

text \<open>The value stored in \<open>results[queryIndex]\<close> by either branch of the goroutine.\<close>

definition mkQueryResult :: "nat \<Rightarrow> SearchResult option \<times> string option \<Rightarrow> QueryResult" where
  "mkQueryResult queryIndex r =
     (case snd r of
        Some err \<Rightarrow> \<lparr>QueryIndex = int queryIndex, Result = None, Error = Some err\<rparr>
      | None \<Rightarrow> \<lparr>QueryIndex = int queryIndex, Result = fst r, Error = None\<rparr>)"

text \<open>
  One step of the goroutine started for index \<open>i\<close>. Its argument \<open>searchQuery\<close> is
  \<open>queries[i]\<close>, evaluated at the \<open>go\<close> statement; the input slice is never written.
  \<open>performSearch\<close> consults \<open>ctx\<close> only through the request, in \<open>client.Do\<close> and in
  the read of the body: its outcome is fixed when that exchange completes, from the
  state of \<open>ctx\<close> at that moment, and a cancellation that comes later, while the call
  is still checking the status, decoding or returning, does not change it. A store
  outside the slice and a negative WaitGroup counter are run-time panics, which end the
  process.
\<close>

definition go_step :: "config \<Rightarrow> nat \<Rightarrow> state \<Rightarrow> state option" where
  "go_step c i s =
     (if i < length (gs s) then
        (case gs s ! i of
           GNone \<Rightarrow> None
         | GStart \<Rightarrow> Some (s\<lparr>gs := (gs s)[i := GInCall], calls := calls s @ [i]\<rparr>)
         | GInCall \<Rightarrow>
             Some (s\<lparr>gs := (gs s)[i := GExch (performSearch (tr c) (bs c) (cancelled s)
                                                (indexName c) (queries c ! i))]\<rparr>)
         | GExch r \<Rightarrow> Some (s\<lparr>gs := (gs s)[i := GGot r]\<rparr>)
         | GGot r \<Rightarrow>
             (case snd r of
                Some err \<Rightarrow> Some (s\<lparr>failureCount := failureCount s + 1,
                                     gs := (gs s)[i := GCounted r]\<rparr>)
              | None \<Rightarrow> Some (s\<lparr>successCount := successCount s + 1,
                                 gs := (gs s)[i := GCounted r]\<rparr>))
         | GCounted r \<Rightarrow>
             if i < length (results s)
             then Some (s\<lparr>results := (results s)[i := mkQueryResult i r],
                          gs := (gs s)[i := GWritten r]\<rparr>)
             else Some (s\<lparr>mpc := MPanic\<rparr>)
         | GWritten r \<Rightarrow>
             if 0 < rateLimiter s
             then Some (s\<lparr>rateLimiter := rateLimiter s - 1, gs := (gs s)[i := GReleased r]\<rparr>)
             else None
         | GReleased r \<Rightarrow>
             if wg s - 1 < 0 then Some (s\<lparr>mpc := MPanic\<rparr>)
             else Some (s\<lparr>wg := wg s - 1, gs := (gs s)[i := GDone r]\<rparr>)
         | GDone r \<Rightarrow> None)
      else None)"

text \<open>
  With capacity 0 the channel is unbuffered: a send completes only together with a
  receive. \<open>handoff_step c j\<close> is that rendezvous between the caller at its send and
  goroutine \<open>j\<close> at its deferred receive.
\<close>

definition handoff_step :: "config \<Rightarrow> nat \<Rightarrow> state \<Rightarrow> state option" where
  "handoff_step c j s =
     (case mpc s of
        MSend i \<Rightarrow>
          if batchSize c = 0 \<and> j < length (gs s) then
            (case gs s ! j of
               GWritten r \<Rightarrow> Some (s\<lparr>gs := (gs s)[j := GReleased r], mpc := MGo i\<rparr>)
             | _ \<Rightarrow> None)
          else None
      | _ \<Rightarrow> None)"

text \<open>The environment may cancel the context once, at any moment.\<close>

definition cancel_step :: "state \<Rightarrow> state option" where
  "cancel_step s = (if cancelled s then None else Some (s\<lparr>cancelled := True\<rparr>))"

datatype action = Main | Go nat | Handoff nat | Cancel

text \<open>A scheduler picks who moves next; nothing moves after a panic.\<close>

definition step :: "config \<Rightarrow> action \<Rightarrow> state \<Rightarrow> state option" where
  "step c a s =
     (if mpc s = MPanic then None
      else case a of
             Main \<Rightarrow> main_step c s
           | Go i \<Rightarrow> go_step c i s
           | Handoff j \<Rightarrow> handoff_step c j s
           | Cancel \<Rightarrow> cancel_step s)"

fun run :: "config \<Rightarrow> action list \<Rightarrow> state \<Rightarrow> state option" where
  "run c [] s = Some s"
| "run c (a # as) s = (case step c a s of None \<Rightarrow> None | Some s' \<Rightarrow> run c as s')"

text \<open>
  \<open>RunBatchSearch c ctx sched\<close> is what the call returns when the scheduler follows
  \<open>sched\<close> and the context starts in state \<open>ctx\<close>: the triple of the source, or None
  when that schedule is not possible or does not end in the \<open>return\<close>.
\<close>

definition RunBatchSearch ::
  "config \<Rightarrow> bool \<Rightarrow> action list \<Rightarrow> (int \<times> int \<times> QueryResult list) option" where
  "RunBatchSearch c ctx sched =
     (case run c sched (init c ctx) of
        None \<Rightarrow> None
      | Some s \<Rightarrow> if mpc s = MReturned
                  then Some (successCount s, failureCount s, results s)
                  else None)"

section \<open>Invariants of the transition system\<close>

text \<open>
  Per-goroutine bookkeeping: \<open>holds\<close> is 1 while the goroutine owns an element of the
  channel buffer, \<open>live\<close> is 1 while it is counted by the WaitGroup, \<open>locals\<close> are its
  variables \<open>(result, err)\<close>, \<open>counted\<close>, \<open>stored\<close> and \<open>entered\<close> tell whether
  it is past the counter increment, past the store to \<open>results\<close>, and past the entry
  to \<open>performSearch\<close>.
\<close>

fun holds :: "gstate \<Rightarrow> int" where
  "holds GStart = 1" | "holds GInCall = 1" | "holds (GExch r) = 1" | "holds (GGot r) = 1"
| "holds (GCounted r) = 1" | "holds (GWritten r) = 1" | "holds _ = 0"

fun live :: "gstate \<Rightarrow> int" where
  "live GNone = 0" | "live (GDone r) = 0" | "live _ = 1"

fun locals :: "gstate \<Rightarrow> (SearchResult option \<times> string option) option" where
  "locals (GExch r) = Some r" | "locals (GGot r) = Some r" | "locals (GCounted r) = Some r"
| "locals (GWritten r) = Some r"
| "locals (GReleased r) = Some r" | "locals (GDone r) = Some r" | "locals _ = None"

fun counted :: "gstate \<Rightarrow> bool" where
  "counted (GCounted r) = True" | "counted (GWritten r) = True"
| "counted (GReleased r) = True" | "counted (GDone r) = True" | "counted _ = False"

fun stored :: "gstate \<Rightarrow> bool" where
  "stored (GWritten r) = True" | "stored (GReleased r) = True" | "stored (GDone r) = True"
| "stored _ = False"

fun entered :: "gstate \<Rightarrow> bool" where
  "entered GNone = False" | "entered GStart = False" | "entered _ = True"

definition succs :: "gstate \<Rightarrow> int" where
  "succs g = (case locals g of Some r \<Rightarrow> if counted g \<and> snd r = None then 1 else 0 | None \<Rightarrow> 0)"

definition fails :: "gstate \<Rightarrow> int" where
  "fails g = (case locals g of Some r \<Rightarrow> if counted g \<and> snd r \<noteq> None then 1 else 0 | None \<Rightarrow> 0)"

fun front :: "config \<Rightarrow> main_pc \<Rightarrow> nat" where
  "front c MInit = 0" | "front c (MLoop i) = i" | "front c (MSend i) = i" | "front c (MGo i) = i"
| "front c MWait = length (queries c)" | "front c MReturned = length (queries c)" | "front c MPanic = 0"

fun pending :: "main_pc \<Rightarrow> int" where
  "pending (MSend i) = 1" | "pending (MGo i) = 1" | "pending _ = 0"

fun sent :: "main_pc \<Rightarrow> int" where
  "sent (MGo i) = 1" | "sent _ = 0"


definition inv_shape :: "config \<Rightarrow> state \<Rightarrow> bool" where
  "inv_shape c s \<longleftrightarrow>
     length (gs s) = length (queries c) \<and>
     (case mpc s of
        MInit \<Rightarrow> True
      | MPanic \<Rightarrow> batchSize c < 0
      | MLoop i \<Rightarrow> 0 \<le> batchSize c \<and> length (results s) = length (queries c) \<and> i \<le> length (queries c)
      | MSend i \<Rightarrow> 0 \<le> batchSize c \<and> length (results s) = length (queries c) \<and> i < length (queries c)
      | MGo i \<Rightarrow> 0 \<le> batchSize c \<and> length (results s) = length (queries c) \<and> i < length (queries c)
      | MWait \<Rightarrow> 0 \<le> batchSize c \<and> length (results s) = length (queries c)
      | MReturned \<Rightarrow> 0 \<le> batchSize c \<and> length (results s) = length (queries c) \<and>
                     wg s = 0)"

definition inv_front :: "config \<Rightarrow> state \<Rightarrow> bool" where
  "inv_front c s \<longleftrightarrow>
     (\<forall>j < length (queries c). (gs s ! j \<noteq> GNone) = (j < front c (mpc s)))"

definition inv_wg :: "state \<Rightarrow> bool" where
  "inv_wg s \<longleftrightarrow> wg s = sum_list (map live (gs s)) + pending (mpc s)"

definition inv_sem :: "config \<Rightarrow> state \<Rightarrow> bool" where
  "inv_sem c s \<longleftrightarrow>
     int (rateLimiter s) = sum_list (map holds (gs s)) + sent (mpc s) \<and>
     (0 \<le> batchSize c \<longrightarrow> int (rateLimiter s) \<le> batchSize c)"

definition inv_count :: "state \<Rightarrow> bool" where
  "inv_count s \<longleftrightarrow>
     successCount s = sum_list (map succs (gs s)) \<and>
     failureCount s = sum_list (map fails (gs s))"

definition inv_prov :: "config \<Rightarrow> state \<Rightarrow> bool" where
  "inv_prov c s \<longleftrightarrow>
     (\<forall>j < length (queries c). \<forall>r. locals (gs s ! j) = Some r \<longrightarrow>
        (\<exists>ctx. (ctx \<longrightarrow> cancelled s) \<and>
               r = performSearch (tr c) (bs c) ctx (indexName c) (queries c ! j)))"

definition inv_store :: "config \<Rightarrow> state \<Rightarrow> bool" where
  "inv_store c s \<longleftrightarrow>
     (\<forall>j < length (queries c). \<forall>r. stored (gs s ! j) \<longrightarrow> locals (gs s ! j) = Some r \<longrightarrow>
        results s ! j = mkQueryResult j r)"

definition inv_calls :: "config \<Rightarrow> state \<Rightarrow> bool" where
  "inv_calls c s \<longleftrightarrow>
     (\<forall>j. count_list (calls s) j = (if j < length (queries c) \<and> entered (gs s ! j) then 1 else 0))"

definition inv :: "config \<Rightarrow> state \<Rightarrow> bool" where
  "inv c s \<longleftrightarrow> inv_shape c s \<and> inv_front c s \<and> inv_wg s \<and> inv_sem c s \<and> inv_count s \<and>
     inv_prov c s \<and> inv_store c s \<and> inv_calls c s"

text \<open>
  \<open>in_call\<close> marks a goroutine that is executing \<open>performSearch\<close>. \<open>msr\<close> is a
  variant: the work left for the caller, for the goroutines and for the environment.
\<close>

fun in_call :: "gstate \<Rightarrow> bool" where
  "in_call GInCall = True" | "in_call (GExch r) = True" | "in_call _ = False"

fun mrank :: "nat \<Rightarrow> main_pc \<Rightarrow> nat" where
  "mrank L MInit = 3 * L + 3"
| "mrank L (MLoop i) = 3 * (L - i) + 2"
| "mrank L (MSend i) = 3 * (L - Suc i) + 4"
| "mrank L (MGo i) = 3 * (L - Suc i) + 3"
| "mrank L MWait = 1"
| "mrank L MReturned = 0"
| "mrank L MPanic = 0"

fun grank :: "gstate \<Rightarrow> nat" where
  "grank GNone = 8" | "grank GStart = 7" | "grank GInCall = 6" | "grank (GExch r) = 5"
| "grank (GGot r) = 4"
| "grank (GCounted r) = 3" | "grank (GWritten r) = 2" | "grank (GReleased r) = 1"
| "grank (GDone r) = 0"

definition msr :: "config \<Rightarrow> state \<Rightarrow> nat" where
  "msr c s = mrank (length (queries c)) (mpc s) + sum_list (map grank (gs s))
             + (if cancelled s then 0 else 1)"

section \<open>The query producer (query.go)\<close>

text \<open>
  The nested anonymous structs of \<open>Root\<close> are records. The three query structs, which
  \<open>makeQueries\<close> stores in a slice of \<open>interface{}\<close>, are the constructors of one
  datatype; the wrapper field \<open>Query\<close> that each of them consists of is left implicit.
  The elements of \<open>Conjuncts\<close> are Go maps, kept as JSON objects.
\<close>

record Geometry_t =
  Coordinates :: "float64 list"

record Bklctrcb_t =
  Geometry :: Geometry_t
  Relationship :: string

record Root =
  Bklctrcb :: Bklctrcb_t

datatype query =
    LocationQuery (Lon: float64) (Lat: float64) (Distance: string) (Field: string)
  | RelationshipQuery (Match: string) (Field: string)
  | ConjunctQuery (Conjuncts: "json list")

text \<open>
  Run-time panics of the producer: \<open>make\<close> with a capacity out of range, \<open>append\<close>
  that cannot grow the slice, \<open>rand.Intn\<close> with a non-positive argument, an index
  outside a slice (index and length), and \<open>panic(err)\<close>.
\<close>

datatype panic =
    MakeSliceCapOutOfRange
  | GrowSliceLenOutOfRange
  | IntnInvalidArgument
  | IndexOutOfRange nat nat
  | PanicErr string

text \<open>Arithmetic on a Go \<open>int\<close> wraps in 64-bit two's complement.\<close>

definition go_int :: "int \<Rightarrow> int" where
  "go_int k = signed_take_bit 63 k"

text \<open>
  A slice is its elements together with its capacity.
  \<open>make([]interface{}, 0, c)\<close> panics when \<open>c\<close> is negative or beyond \<open>maxcap\<close>, the
  largest capacity the platform can allocate for this element type; otherwise it gives
  the empty slice of capacity \<open>c\<close>.
\<close>

type_synonym slice = "query list \<times> nat"

definition make_cap :: "int \<Rightarrow> int \<Rightarrow> panic + slice" where
  "make_cap maxcap c =
     (if c < 0 \<or> maxcap < c then Inl MakeSliceCapOutOfRange else Inr ([], nat c))"

text \<open>
  \<open>append\<close> of one element. Within the capacity it extends the slice in place. Beyond
  it the runtime reallocates: \<open>growslice cap needed\<close> is the capacity it then gives, or
  None when it panics with \<open>growslice: len out of range\<close> because the slice can grow no
  further. How the runtime chooses the new capacity is left open.
\<close>

definition append_slice :: "(nat \<Rightarrow> nat \<Rightarrow> nat option) \<Rightarrow> slice \<Rightarrow> query \<Rightarrow> panic + slice" where
  "append_slice growslice sl x =
     (case sl of (xs, cap) \<Rightarrow>
        if length xs < cap then Inr (xs @ [x], cap)
        else (case growslice cap (Suc (length xs)) of
                None \<Rightarrow> Inl GrowSliceLenOutOfRange
              | Some cap' \<Rightarrow> Inr (xs @ [x], cap')))"

text \<open>
  The random source is the sequence \<open>rng\<close> of its raw draws, whatever the seed made it:
  the \<open>k\<close>-th call \<open>rand.Intn(n)\<close> panics for \<open>n = 0\<close> and otherwise yields
  \<open>rng k mod n\<close>, so every sequence of values below \<open>n\<close> can occur.
\<close>

definition Intn :: "(nat \<Rightarrow> nat) \<Rightarrow> nat \<Rightarrow> nat \<Rightarrow> panic + nat" where
  "Intn rng k n = (if n = 0 then Inl IntnInvalidArgument else Inr (rng k mod n))"

definition index :: "'a list \<Rightarrow> nat \<Rightarrow> panic + 'a" where
  "index xs i = (if i < length xs then Inr (xs ! i) else Inl (IndexOutOfRange i (length xs)))"

text \<open>
  The loop \<open>for i := 0; i < n; i++\<close> of \<open>makeQueries\<close>: \<open>i\<close> is the loop variable,
  the next argument the number of iterations still to run, \<open>qs\<close> the slice
  \<open>queries\<close> so far.
\<close>

fun makeQueries_loop ::
  "(nat \<Rightarrow> nat \<Rightarrow> nat option) \<Rightarrow> Root list \<Rightarrow> (nat \<Rightarrow> nat) \<Rightarrow> nat \<Rightarrow> nat \<Rightarrow> slice
     \<Rightarrow> panic + slice" where
  "makeQueries_loop growslice locations rng i 0 qs = Inr qs"
| "makeQueries_loop growslice locations rng i (Suc k) qs =
     (case Intn rng i (length locations) of
        Inl p \<Rightarrow> Inl p
      | Inr r \<Rightarrow>
        let randomLoc = locations ! r;
            coords = Coordinates (Geometry (Bklctrcb randomLoc));
            relationship = Relationship (Bklctrcb randomLoc)
        in
        (case index coords 0 of
           Inl p \<Rightarrow> Inl p
         | Inr lon \<Rightarrow>
           (case index coords 1 of
              Inl p \<Rightarrow> Inl p
            | Inr lat \<Rightarrow>
              let locQuery = LocationQuery lon lat ''100mi'' ''bklctrcb.geometry.coordinates''
              in
              (case append_slice growslice qs locQuery of
                 Inl p \<Rightarrow> Inl p
               | Inr qs1 \<Rightarrow>
                 let relationshipQuery =
                       RelationshipQuery relationship ''bklctrcb.relationship''
                 in
                 (case append_slice growslice qs1 relationshipQuery of
                    Inl p \<Rightarrow> Inl p
                  | Inr qs2 \<Rightarrow>
                    let conjunctQuery = ConjunctQuery
                          [JObj [(''location'', JObj [(''lon'', JNum lon), (''lat'', JNum lat)]),
                                 (''distance'', JStr ''100mi''),
                                 (''field'', JStr ''bklctrcb.geometry.coordinates'')],
                           JObj [(''match'', JStr relationship),
                                 (''field'', JStr ''bklctrcb.relationship'')]]
                    in
                    (case append_slice growslice qs2 conjunctQuery of
                       Inl p \<Rightarrow> Inl p
                     | Inr qs3 \<Rightarrow>
                         makeQueries_loop growslice locations rng (Suc i) k qs3))))))"

text \<open>\<open>makeQueries\<close> returns the elements of the slice it has filled.\<close>

definition makeQueries ::
  "int \<Rightarrow> (nat \<Rightarrow> nat \<Rightarrow> nat option) \<Rightarrow> (nat \<Rightarrow> nat) \<Rightarrow> Root list \<Rightarrow> int
     \<Rightarrow> panic + query list" where
  "makeQueries maxcap growslice rng locations n =
     (case make_cap maxcap (go_int (n * 3)) of
        Inl p \<Rightarrow> Inl p
      | Inr qs \<Rightarrow>
        (case makeQueries_loop growslice locations rng 0 (nat n) qs of
           Inl p \<Rightarrow> Inl p
         | Inr sl \<Rightarrow> Inr (fst sl)))"

text \<open>
  What \<open>GenerateQueries\<close> takes from outside: the file system (\<open>ReadFile\<close>,
  \<open>WriteFile\<close>, an error or the result), the JSON codec, the random draws after
  \<open>rand.Seed\<close>, the allocation bound and the growth of slices. Running out of memory
  within the allocation bound is not modelled.
\<close>

record GenEnv =
  ReadFile :: "string \<Rightarrow> string + string"
  UnmarshalRoots :: "string \<Rightarrow> string + Root list"
  draws :: "nat \<Rightarrow> nat"
  alloc_max :: int
  regrow :: "nat \<Rightarrow> nat \<Rightarrow> nat option"
  MarshalIndent :: "query list \<Rightarrow> string + string"
  WriteFile :: "string \<Rightarrow> string \<Rightarrow> string option"

text \<open>
  \<open>GenerateQueries\<close> returns nothing in the source; the model returns its effect: the
  slice it marshalled and the bytes it wrote to \<open>queries.json\<close>. \<open>n / 3\<close> truncates
  towards zero.
\<close>

definition GenerateQueries :: "GenEnv \<Rightarrow> int \<Rightarrow> panic + (query list \<times> string)" where
  "GenerateQueries env n =
     (case ReadFile env ''long-lat.json'' of
        Inl err \<Rightarrow> Inl (PanicErr err)
      | Inr data \<Rightarrow>
        (case UnmarshalRoots env data of
           Inl err \<Rightarrow> Inl (PanicErr err)
         | Inr locations \<Rightarrow>
           (case makeQueries (alloc_max env) (regrow env) (draws env) locations (n sdiv 3) of
              Inl p \<Rightarrow> Inl p
            | Inr qs \<Rightarrow>
              (case MarshalIndent env qs of
                 Inl err \<Rightarrow> Inl (PanicErr err)
               | Inr queryJSON \<Rightarrow>
                 (case WriteFile env ''queries.json'' queryJSON of
                    Some err \<Rightarrow> Inl (PanicErr err)
                  | None \<Rightarrow> Inr (qs, queryJSON))))))"

text \<open>The shape of a query: 0 location, 1 relationship, 2 conjunct.\<close>

fun shape :: "query \<Rightarrow> nat" where
  "shape (LocationQuery lon lat d f) = 0"
| "shape (RelationshipQuery m f) = 1"
| "shape (ConjunctQuery cs) = 2"

text \<open>
  \<open>coords_of\<close> reads \<open>randomLoc.Bklctrcb.Geometry.Coordinates\<close>; \<open>queriesFor\<close> is the
  triple of queries one iteration appends for a location with two coordinates.
\<close>

abbreviation coords_of :: "Root \<Rightarrow> float64 list" where
  "coords_of l \<equiv> Coordinates (Geometry (Bklctrcb l))"

definition queriesFor :: "Root \<Rightarrow> query list" where
  "queriesFor loc =
     [LocationQuery (coords_of loc ! 0) (coords_of loc ! 1) ''100mi''
        ''bklctrcb.geometry.coordinates'',
      RelationshipQuery (Relationship (Bklctrcb loc)) ''bklctrcb.relationship'',
      ConjunctQuery
        [JObj [(''location'', JObj [(''lon'', JNum (coords_of loc ! 0)),
                                    (''lat'', JNum (coords_of loc ! 1))]),
               (''distance'', JStr ''100mi''),
               (''field'', JStr ''bklctrcb.geometry.coordinates'')],
         JObj [(''match'', JStr (Relationship (Bklctrcb loc))),
               (''field'', JStr ''bklctrcb.relationship'')]]]"

section \<open>Concrete inputs for evaluation\<close>

text \<open>
  The \<open>demo\<close> transport answers 404 to the query \<open>bad\<close>, an undecodable body to
  \<open>garbled\<close>, a decodable one to anything else, and an error once the context is
  cancelled.
\<close>

definition demo_result :: SearchResult where
  "demo_result = \<lparr>Status = JNull, Total = 0, Hits = [], Took = 0, MaxScore = 0\<rparr>"

definition demo_tr :: Transport where
  "demo_tr =
     \<lparr>url_error = (\<lambda>u. None),
      EncodeToString = (\<lambda>x. x),
      Do = (\<lambda>ctx req.
              if ctx then Inl ''context canceled''
              else if ReqBody req = ''bad'' then Inr \<lparr>StatusCode = 404, RespBody = Inr ''nf''\<rparr>
              else if ReqBody req = ''garbled'' then Inr \<lparr>StatusCode = 200, RespBody = Inr ''<''\<rparr>
              else Inr \<lparr>StatusCode = 200, RespBody = Inr ''{}''\<rparr>),
      Unmarshal = (\<lambda>b. if b = ''{}'' then Inr demo_result else Inl ''invalid character'')\<rparr>"

definition demo_bs :: BatchSearcher where
  "demo_bs = \<lparr>baseURL = ''http://h:8094'', username = ''u'', password = ''p''\<rparr>"

text \<open>
  A run of two queries with two admission slots in which the goroutine for index 1
  finishes before the goroutine for index 0.
\<close>

definition demo_cfg :: config where
  "demo_cfg = \<lparr>tr = demo_tr, bs = demo_bs, indexName = ''idx'',
                queries = [''ok'', ''bad''], batchSize = 2\<rparr>"

definition demo_sched :: "action list" where
  "demo_sched =
     [Main, Main, Main, Main, Go 0, Main, Main, Main, Go 1, Go 1, Go 1, Go 1, Go 1, Go 1, Go 1,
      Main, Go 0, Go 0, Go 0, Go 0, Go 0, Go 0, Main]"

definition empty_cfg :: config where
  "empty_cfg = \<lparr>tr = demo_tr, bs = demo_bs, indexName = ''idx'', queries = [], batchSize = 1\<rparr>"

text \<open>
  One query with the context already cancelled at entry; an empty list with capacity 0;
  a negative capacity.
\<close>

definition cancelled_cfg :: config where
  "cancelled_cfg = \<lparr>tr = demo_tr, bs = demo_bs, indexName = ''idx'',
                     queries = [''ok''], batchSize = 1\<rparr>"

definition cancelled_sched :: "action list" where
  "cancelled_sched =
     [Main, Main, Main, Main, Go 0, Go 0, Go 0, Go 0, Go 0, Go 0, Go 0, Main, Main]"

definition zero_cfg :: config where
  "zero_cfg = \<lparr>tr = demo_tr, bs = demo_bs, indexName = ''idx'', queries = [], batchSize = 0\<rparr>"

definition neg_cfg :: config where
  "neg_cfg = \<lparr>tr = demo_tr, bs = demo_bs, indexName = ''idx'', queries = [''ok''],
               batchSize = - 1\<rparr>"

text \<open>
  A run of \<open>demo_cfg\<close> in which the context is cancelled when the exchange for
  index 0 has completed, \<open>performSearch\<close> has not yet returned for it, and index 1 has
  not been admitted.
\<close>

definition cancel_pre :: "action list" where
  "cancel_pre = [Main, Main, Main, Main, Go 0, Go 0]"

definition cancel_post :: "action list" where
  "cancel_post = [Go 0, Go 0, Go 0, Go 0, Go 0, Main, Main, Main, Go 1, Go 1, Go 1, Go 1, Go 1,
                  Go 1, Go 1, Main, Main]"

text \<open>
  Sample inputs: one location with two coordinates, one with a single coordinate, a
  runtime that never grows a slice, and a producer environment over the first location.
\<close>

definition good_loc :: Root where
  "good_loc = \<lparr>Bklctrcb = \<lparr>Geometry = \<lparr>Coordinates = [1, 2]\<rparr>, Relationship = ''friend''\<rparr>\<rparr>"

definition short_loc :: Root where
  "short_loc = \<lparr>Bklctrcb = \<lparr>Geometry = \<lparr>Coordinates = [1]\<rparr>, Relationship = ''foe''\<rparr>\<rparr>"

definition no_grow :: "nat \<Rightarrow> nat \<Rightarrow> nat option" where
  "no_grow cap needed = None"

definition demo_gen :: GenEnv where
  "demo_gen =
     \<lparr>ReadFile = (\<lambda>name. if name = ''long-lat.json'' then Inr ''[...]'' else Inl ''no such file''),
      UnmarshalRoots = (\<lambda>data. Inr [good_loc]),
      draws = (\<lambda>k. k),
      alloc_max = 1000,
      regrow = no_grow,
      MarshalIndent = (\<lambda>qs. Inr (concat (map (\<lambda>q. if shape q = 0 then ''L''
                                                    else if shape q = 1 then ''R'' else ''C'') qs))),
      WriteFile = (\<lambda>name data. None)\<rparr>"

text \<open>Two sequences of draws: 0, 1, 2, ... and 0, 0, 0, ...\<close>

definition count_draws :: "nat \<Rightarrow> nat" where
  "count_draws k = k"

definition first_draws :: "nat \<Rightarrow> nat" where
  "first_draws k = 0"

section \<open>Lemmas\<close>

lemma sum_list_map_upd:
  fixes f :: "'a \<Rightarrow> int"
  shows "i < length xs \<Longrightarrow>
    sum_list (map f (xs[i := y])) = sum_list (map f xs) - f (xs ! i) + f y"
proof (induction xs arbitrary: i)
  case Nil then show ?case by simp
next
  case (Cons x xs) then show ?case by (cases i) auto
qed

lemma sum_list_pos_ex:
  fixes f :: "'a \<Rightarrow> int"
  assumes "0 < sum_list (map f xs)"
  shows "\<exists>j < length xs. 0 < f (xs ! j)"
proof (rule ccontr)
  assume "\<not> ?thesis"
  then have "\<forall>x \<in> set xs. f x \<le> 0" by (metis in_set_conv_nth not_less)
  then have "sum_list (map f xs) \<le> 0" by (induction xs) auto
  with assms show False by simp
qed

lemma sum_list_nth_le:
  fixes f :: "'a \<Rightarrow> int"
  assumes "\<And>x. 0 \<le> f x" "i < length xs"
  shows "f (xs ! i) \<le> sum_list (map f xs)"
  using assms(2)
proof (induction xs arbitrary: i)
  case Nil then show ?case by simp
next
  case (Cons x xs)
  have "0 \<le> sum_list (map f xs)" by (induction xs) (auto simp: assms(1))
  with Cons assms(1)[of x] show ?case by (cases i) (auto simp: add_increasing)
qed


lemmas inv_defs = inv_shape_def inv_front_def inv_wg_def inv_sem_def inv_count_def
  inv_prov_def inv_store_def inv_calls_def

lemma succs_simps [simp]:
  "succs GNone = 0" "succs GStart = 0" "succs GInCall = 0" "succs (GExch r) = 0"
  "succs (GGot r) = 0"
  "succs (GCounted r) = (if snd r = None then 1 else 0)"
  "succs (GWritten r) = (if snd r = None then 1 else 0)"
  "succs (GReleased r) = (if snd r = None then 1 else 0)"
  "succs (GDone r) = (if snd r = None then 1 else 0)"
  by (simp_all add: succs_def)

lemma fails_simps [simp]:
  "fails GNone = 0" "fails GStart = 0" "fails GInCall = 0" "fails (GExch r) = 0"
  "fails (GGot r) = 0"
  "fails (GCounted r) = (if snd r = None then 0 else 1)"
  "fails (GWritten r) = (if snd r = None then 0 else 1)"
  "fails (GReleased r) = (if snd r = None then 0 else 1)"
  "fails (GDone r) = (if snd r = None then 0 else 1)"
  by (simp_all add: fails_def)

lemma inv_init: "inv c (init c ctx)"
  by (simp add: inv_def inv_defs init_def map_replicate_const sum_list_replicate)

lemma holds_nonneg: "0 \<le> holds g" by (cases g) auto
lemma live_nonneg: "0 \<le> live g" by (cases g) auto

lemma main_step_cases:
  assumes "main_step c s = Some s'"
  obtains
    (init_panic) "mpc s = MInit" "batchSize c < 0" "s' = s\<lparr>mpc := MPanic\<rparr>"
  | (init_ok) "mpc s = MInit" "0 \<le> batchSize c"
      "s' = s\<lparr>results := replicate (length (queries c)) zeroQueryResult, mpc := MLoop 0\<rparr>"
  | (add) i where "mpc s = MLoop i" "i < length (queries c)"
      "s' = s\<lparr>wg := wg s + 1, mpc := MSend i\<rparr>"
  | (exit) i where "mpc s = MLoop i" "\<not> i < length (queries c)" "s' = s\<lparr>mpc := MWait\<rparr>"
  | (send) i where "mpc s = MSend i" "int (rateLimiter s) < batchSize c"
      "s' = s\<lparr>rateLimiter := Suc (rateLimiter s), mpc := MGo i\<rparr>"
  | (spawn) i where "mpc s = MGo i" "s' = s\<lparr>gs := (gs s)[i := GStart], mpc := MLoop (Suc i)\<rparr>"
  | (return) "mpc s = MWait" "wg s = 0" "s' = s\<lparr>mpc := MReturned\<rparr>"
  using assms by (cases "mpc s") (auto simp: main_step_def split: if_splits)


lemma go_step_cases:
  assumes "go_step c i s = Some s'"
  obtains
    (enter) "i < length (gs s)" "gs s ! i = GStart"
      "s' = s\<lparr>gs := (gs s)[i := GInCall], calls := calls s @ [i]\<rparr>"
  | (exchange) "i < length (gs s)" "gs s ! i = GInCall"
      "s' = s\<lparr>gs := (gs s)[i := GExch (performSearch (tr c) (bs c) (cancelled s)
                                        (indexName c) (queries c ! i))]\<rparr>"
  | (fail) r err where "i < length (gs s)" "gs s ! i = GGot r" "snd r = Some err"
      "s' = s\<lparr>failureCount := failureCount s + 1, gs := (gs s)[i := GCounted r]\<rparr>"
  | (succeed) r where "i < length (gs s)" "gs s ! i = GGot r" "snd r = None"
      "s' = s\<lparr>successCount := successCount s + 1, gs := (gs s)[i := GCounted r]\<rparr>"
  | (store) r where "i < length (gs s)" "gs s ! i = GCounted r" "i < length (results s)"
      "s' = s\<lparr>results := (results s)[i := mkQueryResult i r], gs := (gs s)[i := GWritten r]\<rparr>"
  | (store_panic) r where "i < length (gs s)" "gs s ! i = GCounted r"
      "\<not> i < length (results s)" "s' = s\<lparr>mpc := MPanic\<rparr>"
  | (release) r where "i < length (gs s)" "gs s ! i = GWritten r" "0 < rateLimiter s"
      "s' = s\<lparr>rateLimiter := rateLimiter s - 1, gs := (gs s)[i := GReleased r]\<rparr>"
  | (done_panic) r where "i < length (gs s)" "gs s ! i = GReleased r" "wg s - 1 < 0"
      "s' = s\<lparr>mpc := MPanic\<rparr>"
  | (finish) r where "i < length (gs s)" "gs s ! i = GReleased r" "\<not> wg s - 1 < 0"
      "s' = s\<lparr>wg := wg s - 1, gs := (gs s)[i := GDone r]\<rparr>"
  | (leave) r where "i < length (gs s)" "gs s ! i = GExch r"
      "s' = s\<lparr>gs := (gs s)[i := GGot r]\<rparr>"
proof -
  from assms have il: "i < length (gs s)" by (simp add: go_step_def split: if_splits)
  from assms il have g: "(case gs s ! i of
           GNone \<Rightarrow> None
         | GStart \<Rightarrow> Some (s\<lparr>gs := (gs s)[i := GInCall], calls := calls s @ [i]\<rparr>)
         | GInCall \<Rightarrow>
             Some (s\<lparr>gs := (gs s)[i := GExch (performSearch (tr c) (bs c) (cancelled s)
                                                (indexName c) (queries c ! i))]\<rparr>)
         | GExch r \<Rightarrow> Some (s\<lparr>gs := (gs s)[i := GGot r]\<rparr>)
         | GGot r \<Rightarrow>
             (case snd r of
                Some err \<Rightarrow> Some (s\<lparr>failureCount := failureCount s + 1,
                                     gs := (gs s)[i := GCounted r]\<rparr>)
              | None \<Rightarrow> Some (s\<lparr>successCount := successCount s + 1,
                                 gs := (gs s)[i := GCounted r]\<rparr>))
         | GCounted r \<Rightarrow>
             if i < length (results s)
             then Some (s\<lparr>results := (results s)[i := mkQueryResult i r],
                          gs := (gs s)[i := GWritten r]\<rparr>)
             else Some (s\<lparr>mpc := MPanic\<rparr>)
         | GWritten r \<Rightarrow>
             if 0 < rateLimiter s
             then Some (s\<lparr>rateLimiter := rateLimiter s - 1, gs := (gs s)[i := GReleased r]\<rparr>)
             else None
         | GReleased r \<Rightarrow>
             if wg s - 1 < 0 then Some (s\<lparr>mpc := MPanic\<rparr>)
             else Some (s\<lparr>wg := wg s - 1, gs := (gs s)[i := GDone r]\<rparr>)
         | GDone r \<Rightarrow> None) = Some s'"
    by (simp add: go_step_def)
  show ?thesis
  proof (cases "gs s ! i")
    case GNone with g show ?thesis by simp
  next
    case GStart
    with g have "s' = s\<lparr>gs := (gs s)[i := GInCall], calls := calls s @ [i]\<rparr>" by simp
    with il GStart show ?thesis by (rule that(1))
  next
    case GInCall
    with g have "s' = s\<lparr>gs := (gs s)[i := GExch (performSearch (tr c) (bs c) (cancelled s)
                                        (indexName c) (queries c ! i))]\<rparr>" by simp
    with il GInCall show ?thesis by (rule that(2))
  next
    case (GExch r)
    with g have "s' = s\<lparr>gs := (gs s)[i := GGot r]\<rparr>" by simp
    with il GExch show ?thesis by (rule that(10))
  next
    case (GGot r)
    show ?thesis
    proof (cases "snd r")
      case None
      with g GGot have "s' = s\<lparr>successCount := successCount s + 1, gs := (gs s)[i := GCounted r]\<rparr>"
        by simp
      with il GGot None show ?thesis by (rule that(4))
    next
      case (Some err)
      with g GGot have "s' = s\<lparr>failureCount := failureCount s + 1, gs := (gs s)[i := GCounted r]\<rparr>"
        by simp
      with il GGot Some show ?thesis by (rule that(3))
    qed
  next
    case (GCounted r)
    show ?thesis
    proof (cases "i < length (results s)")
      case True
      with g GCounted have "s' = s\<lparr>results := (results s)[i := mkQueryResult i r],
          gs := (gs s)[i := GWritten r]\<rparr>" by simp
      with il GCounted True show ?thesis by (rule that(5))
    next
      case False
      with g GCounted have "s' = s\<lparr>mpc := MPanic\<rparr>" by simp
      with il GCounted False show ?thesis by (rule that(6))
    qed
  next
    case (GWritten r)
    with g have p: "0 < rateLimiter s" by (simp split: if_splits)
    with g GWritten have "s' = s\<lparr>rateLimiter := rateLimiter s - 1, gs := (gs s)[i := GReleased r]\<rparr>"
      by simp
    with il GWritten p show ?thesis by (rule that(7))
  next
    case (GReleased r)
    show ?thesis
    proof (cases "wg s - 1 < 0")
      case True
      with g GReleased have "s' = s\<lparr>mpc := MPanic\<rparr>" by simp
      with il GReleased True show ?thesis by (rule that(8))
    next
      case False
      with g GReleased have "s' = s\<lparr>wg := wg s - 1, gs := (gs s)[i := GDone r]\<rparr>" by simp
      with il GReleased False show ?thesis by (rule that(9))
    qed
  next
    case (GDone r) with g show ?thesis by simp
  qed
qed

lemma handoff_step_cases:
  assumes "handoff_step c j s = Some s'"
  obtains i r where "mpc s = MSend i" "batchSize c = 0" "j < length (gs s)"
    "gs s ! j = GWritten r" "s' = s\<lparr>gs := (gs s)[j := GReleased r], mpc := MGo i\<rparr>"
  using assms
  by (cases "mpc s"; cases "gs s ! j") (auto simp: handoff_step_def split: if_splits)

lemma cancel_step_cases:
  assumes "cancel_step s = Some s'"
  obtains "\<not> cancelled s" "s' = s\<lparr>cancelled := True\<rparr>"
  using assms by (auto simp: cancel_step_def split: if_splits)

lemma inv_thread_facts:
  assumes "inv c s" "i < length (gs s)" "gs s ! i \<noteq> GNone"
  shows "i < length (queries c)" "mpc s \<noteq> MInit" "mpc s \<noteq> MPanic"
        "length (results s) = length (queries c)" "0 \<le> batchSize c"
proof -
  from assms show il: "i < length (queries c)" by (simp add: inv_def inv_shape_def)
  with assms have f: "i < front c (mpc s)" by (auto simp: inv_def inv_front_def)
  then show m: "mpc s \<noteq> MInit" "mpc s \<noteq> MPanic" by auto
  with assms(1) show "length (results s) = length (queries c)"
    by (cases "mpc s") (simp_all add: inv_def inv_shape_def)
  from m assms(1) show "0 \<le> batchSize c"
    by (cases "mpc s") (simp_all add: inv_def inv_shape_def)
qed


lemma inv_step_cases [consumes 2]:
  assumes "inv c s" "step c a s = Some s'"
  obtains
    (init_panic) "a = Main" "mpc s = MInit" "batchSize c < 0" "s' = s\<lparr>mpc := MPanic\<rparr>"
  | (init_ok) "a = Main" "mpc s = MInit" "0 \<le> batchSize c"
      "s' = s\<lparr>results := replicate (length (queries c)) zeroQueryResult, mpc := MLoop 0\<rparr>"
  | (add) i where "a = Main" "mpc s = MLoop i" "i < length (queries c)"
      "s' = s\<lparr>wg := wg s + 1, mpc := MSend i\<rparr>"
  | (exit) i where "a = Main" "mpc s = MLoop i" "i = length (queries c)" "s' = s\<lparr>mpc := MWait\<rparr>"
  | (send) i where "a = Main" "mpc s = MSend i" "int (rateLimiter s) < batchSize c"
      "i < length (queries c)"
      "s' = s\<lparr>rateLimiter := Suc (rateLimiter s), mpc := MGo i\<rparr>"
  | (spawn) i where "a = Main" "mpc s = MGo i" "i < length (queries c)" "gs s ! i = GNone"
      "s' = s\<lparr>gs := (gs s)[i := GStart], mpc := MLoop (Suc i)\<rparr>"
  | (return) "a = Main" "mpc s = MWait" "wg s = 0" "s' = s\<lparr>mpc := MReturned\<rparr>"
  | (enter) i where "a = Go i" "i < length (queries c)" "gs s ! i = GStart"
      "s' = s\<lparr>gs := (gs s)[i := GInCall], calls := calls s @ [i]\<rparr>"
  | (exchange) i where "a = Go i" "i < length (queries c)" "gs s ! i = GInCall"
      "s' = s\<lparr>gs := (gs s)[i := GExch (performSearch (tr c) (bs c) (cancelled s)
                                        (indexName c) (queries c ! i))]\<rparr>"
  | (fail) i r err where "a = Go i" "i < length (queries c)" "gs s ! i = GGot r" "snd r = Some err"
      "s' = s\<lparr>failureCount := failureCount s + 1, gs := (gs s)[i := GCounted r]\<rparr>"
  | (succeed) i r where "a = Go i" "i < length (queries c)" "gs s ! i = GGot r" "snd r = None"
      "s' = s\<lparr>successCount := successCount s + 1, gs := (gs s)[i := GCounted r]\<rparr>"
  | (store) i r where "a = Go i" "i < length (queries c)" "gs s ! i = GCounted r"
      "s' = s\<lparr>results := (results s)[i := mkQueryResult i r], gs := (gs s)[i := GWritten r]\<rparr>"
  | (release) i r where "a = Go i" "i < length (queries c)" "gs s ! i = GWritten r"
      "0 < rateLimiter s"
      "s' = s\<lparr>rateLimiter := rateLimiter s - 1, gs := (gs s)[i := GReleased r]\<rparr>"
  | (finish) i r where "a = Go i" "i < length (queries c)" "gs s ! i = GReleased r" "0 < wg s"
      "s' = s\<lparr>wg := wg s - 1, gs := (gs s)[i := GDone r]\<rparr>"
  | (handoff) i j r where "a = Handoff j" "mpc s = MSend i" "batchSize c = 0"
      "j < length (queries c)" "gs s ! j = GWritten r"
      "s' = s\<lparr>gs := (gs s)[j := GReleased r], mpc := MGo i\<rparr>"
  | (cancel) "a = Cancel" "\<not> cancelled s" "s' = s\<lparr>cancelled := True\<rparr>"
  | (leave) i r where "a = Go i" "i < length (queries c)" "gs s ! i = GExch r"
      "s' = s\<lparr>gs := (gs s)[i := GGot r]\<rparr>"
proof -
  from assms(1) have len: "length (gs s) = length (queries c)"
    by (simp add: inv_def inv_shape_def)
  from assms(2) have np: "mpc s \<noteq> MPanic" by (auto simp: step_def split: if_splits)
  show ?thesis
  proof (cases a)
    case Main
    with assms(2) np have m: "main_step c s = Some s'" by (simp add: step_def)
    from m show ?thesis
    proof (cases rule: main_step_cases)
      case init_panic with Main that(1) show ?thesis by blast
    next
      case init_ok with Main that(2) show ?thesis by blast
    next
      case (add i) with Main that(3) show ?thesis by blast
    next
      case (exit i)
      with assms(1) have "i = length (queries c)" by (simp add: inv_def inv_shape_def)
      with exit Main that(4) show ?thesis by blast
    next
      case (send i)
      with assms(1) have "i < length (queries c)" by (simp add: inv_def inv_shape_def)
      with send Main that(5) show ?thesis by blast
    next
      case (spawn i)
      with assms(1) have il: "i < length (queries c)" by (simp add: inv_def inv_shape_def)
      with assms(1) spawn have "gs s ! i = GNone" by (auto simp: inv_def inv_front_def)
      with il spawn Main that(6) show ?thesis by blast
    next
      case return with Main that(7) show ?thesis by blast
    qed
  next
    case (Go i)
    with assms(2) np have g: "go_step c i s = Some s'" by (simp add: step_def)
    from g have il: "i < length (gs s)" "gs s ! i \<noteq> GNone"
      by (auto simp: go_step_def split: if_splits)
    note tf = inv_thread_facts[OF assms(1) il]
    from g show ?thesis
    proof (cases rule: go_step_cases)
      case enter with Go tf that(8) show ?thesis by blast
    next
      case exchange with Go tf that(9) show ?thesis by blast
    next
      case (leave r) with Go tf that(17) show ?thesis by blast
    next
      case (fail r err) with Go tf that(10) show ?thesis by blast
    next
      case (succeed r) with Go tf that(11) show ?thesis by blast
    next
      case (store r) with Go tf that(12) show ?thesis by blast
    next
      case (store_panic r) with tf show ?thesis by simp
    next
      case (release r) with Go tf that(13) show ?thesis by blast
    next
      case (done_panic r)
      have "live (gs s ! i) \<le> sum_list (map live (gs s))"
        by (rule sum_list_nth_le[OF live_nonneg il(1)])
      moreover have "0 \<le> pending (mpc s)" by (cases "mpc s") simp_all
      moreover from assms(1) have "wg s = sum_list (map live (gs s)) + pending (mpc s)"
        by (simp add: inv_def inv_wg_def)
      ultimately show ?thesis using done_panic by simp
    next
      case (finish r)
      then have "0 < wg s" by simp
      with finish Go tf that(14) show ?thesis by blast
    qed
  next
    case (Handoff j)
    with assms(2) np have h: "handoff_step c j s = Some s'" by (simp add: step_def)
    from h show ?thesis
    proof (cases rule: handoff_step_cases)
      case (1 i r)
      with len Handoff that(15) show ?thesis by simp
    qed
  next
    case Cancel
    with assms(2) np have "cancel_step s = Some s'" by (simp add: step_def)
    then show ?thesis
      by (cases rule: cancel_step_cases) (use Cancel that(16) in blast)
  qed
qed


lemma shape_step:
  assumes "inv c s" "step c a s = Some s'" shows "inv_shape c s'"
  using assms
proof (cases rule: inv_step_cases)
  case (exit i) with assms(1) show ?thesis by (auto simp: inv_def inv_shape_def)
next
  case (spawn i) with assms(1) show ?thesis by (auto simp: inv_def inv_shape_def)
next
  case (handoff i j r) with assms(1) show ?thesis by (auto simp: inv_def inv_shape_def)
qed (use assms(1) in \<open>auto simp: inv_def inv_shape_def split: main_pc.splits\<close>)

lemma front_step:
  assumes "inv c s" "step c a s = Some s'" shows "inv_front c s'"
  using assms
proof (cases rule: inv_step_cases)
  case (spawn i)
  with assms(1) show ?thesis
    by (auto simp: inv_def inv_shape_def inv_front_def nth_list_update less_Suc_eq)
qed (use assms(1) in \<open>auto simp: inv_def inv_shape_def inv_front_def nth_list_update\<close>)


lemma inv_lenD: "inv c s \<Longrightarrow> length (gs s) = length (queries c)"
  by (simp add: inv_def inv_shape_def)

lemma wg_step:
  assumes "inv c s" "step c a s = Some s'" shows "inv_wg s'"
  using assms
  by (cases rule: inv_step_cases)
     (use assms(1) inv_lenD[OF assms(1)] in \<open>auto simp: inv_def inv_wg_def sum_list_map_upd\<close>)

lemma sem_step:
  assumes "inv c s" "step c a s = Some s'" shows "inv_sem c s'"
  using assms
  by (cases rule: inv_step_cases)
     (use assms(1) inv_lenD[OF assms(1)] in \<open>auto simp: inv_def inv_sem_def sum_list_map_upd\<close>)

lemma count_step:
  assumes "inv c s" "step c a s = Some s'" shows "inv_count s'"
  using assms
  by (cases rule: inv_step_cases)
     (use assms(1) inv_lenD[OF assms(1)] in \<open>auto simp: inv_def inv_count_def sum_list_map_upd\<close>)

lemma prov_step:
  assumes "inv c s" "step c a s = Some s'" shows "inv_prov c s'"
  using assms
proof (cases rule: inv_step_cases)
  case (exchange i)
  with assms(1) inv_lenD[OF assms(1)] show ?thesis
    by (auto simp: inv_def inv_prov_def nth_list_update)
next
  case cancel
  with assms(1) show ?thesis by (fastforce simp: inv_def inv_prov_def)
qed (use assms(1) inv_lenD[OF assms(1)] in \<open>auto simp: inv_def inv_prov_def nth_list_update\<close>)

lemma store_step:
  assumes "inv c s" "step c a s = Some s'" shows "inv_store c s'"
  using assms
proof (cases rule: inv_step_cases)
  case (store i r)
  from assms(1) store have "length (results s) = length (queries c)"
    using inv_thread_facts(4)[of c s i] by (simp add: inv_lenD)
  with store assms(1) inv_lenD[OF assms(1)] show ?thesis
    by (auto simp: inv_def inv_store_def nth_list_update)
next
  case init_ok
  with assms(1) inv_lenD[OF assms(1)] show ?thesis
    by (auto simp: inv_def inv_store_def inv_front_def)
qed (use assms(1) inv_lenD[OF assms(1)] in \<open>auto simp: inv_def inv_store_def nth_list_update\<close>)

lemma calls_step:
  assumes "inv c s" "step c a s = Some s'" shows "inv_calls c s'"
  using assms
  by (cases rule: inv_step_cases)
     (use assms(1) inv_lenD[OF assms(1)] in \<open>auto simp: inv_def inv_calls_def nth_list_update\<close>)

lemma inv_step:
  assumes "inv c s" "step c a s = Some s'" shows "inv c s'"
proof -
  note shape_step[OF assms] front_step[OF assms] wg_step[OF assms] sem_step[OF assms]
    count_step[OF assms] prov_step[OF assms] store_step[OF assms] calls_step[OF assms]
  then show ?thesis by (simp add: inv_def)
qed

lemma inv_run: "inv c s \<Longrightarrow> run c sched s = Some s' \<Longrightarrow> inv c s'"
  by (induction sched arbitrary: s) (auto split: option.splits dest: inv_step)

lemma inv_reach: "run c sched (init c ctx) = Some s \<Longrightarrow> inv c s"
  using inv_run[OF inv_init] .

subsection \<open>performSearch\<close>

lemma performSearch_unfold:
  "performSearch t b ctx idx q =
     (case url_error t (baseURL b @ ''/api/index/'' @ idx @ ''/query'') of
        Some err \<Rightarrow> (None, Some (''failed to create request: '' @ err))
      | None \<Rightarrow>
        (case Do t ctx (searchRequest t b idx q) of
           Inl err \<Rightarrow> (None, Some (''failed to execute request: '' @ err))
         | Inr resp \<Rightarrow>
           (case RespBody resp of
              Inl err \<Rightarrow> (None, Some (''failed to read response: '' @ err))
            | Inr body \<Rightarrow>
              if StatusCode resp \<noteq> 200
              then (None, Some (''server returned status '' @ fmt_d (StatusCode resp) @ '': '' @ body))
              else (case Unmarshal t body of
                      Inl err \<Rightarrow> (None, Some (''failed to parse response: '' @ err))
                    | Inr result \<Rightarrow> (Some result, None)))))"
  by (simp add: performSearch_def createSearchPayload_def NewRequestWithContext_def
      HeaderAdd_def searchRequest_def Let_def split: option.splits sum.splits)

lemma performSearch_one_nil:
  "(fst (performSearch t b ctx idx q) = None) \<longleftrightarrow> (snd (performSearch t b ctx idx q) \<noteq> None)"
  by (simp add: performSearch_unfold split: option.splits sum.splits)

text \<open>
  Claim C8. \<open>performSearch\<close> always returns a value. It returns an error exactly when
  the request cannot be created, the exchange fails, the body cannot be read, the status is
  not 200, or the body does not decode; the result pointer is nil exactly when the error is
  not. A status other than 200 (so every non-2xx status) and a decode failure give errors
  with different messages.
\<close>

theorem performSearch_error_cases:
  fixes t b ctx idx q
  shows
  "(snd (performSearch t b ctx idx q) \<noteq> None \<longleftrightarrow>
      url_error t (baseURL b @ ''/api/index/'' @ idx @ ''/query'') \<noteq> None \<or>
      (case Do t ctx (searchRequest t b idx q) of
         Inl err \<Rightarrow> True
       | Inr resp \<Rightarrow>
           (case RespBody resp of
              Inl err \<Rightarrow> True
            | Inr body \<Rightarrow> StatusCode resp \<noteq> 200 \<or> isl (Unmarshal t body)))) \<and>
   (fst (performSearch t b ctx idx q) = None \<longleftrightarrow> snd (performSearch t b ctx idx q) \<noteq> None) \<and>
   (\<forall>resp body.
      url_error t (baseURL b @ ''/api/index/'' @ idx @ ''/query'') = None \<and>
      Do t ctx (searchRequest t b idx q) = Inr resp \<and> RespBody resp = Inr body \<longrightarrow>
        (StatusCode resp \<noteq> 200 \<longrightarrow>
           performSearch t b ctx idx q =
             (None, Some (''server returned status '' @ fmt_d (StatusCode resp) @ '': '' @ body))) \<and>
        (\<forall>err. StatusCode resp = 200 \<and> Unmarshal t body = Inl err \<longrightarrow>
           performSearch t b ctx idx q = (None, Some (''failed to parse response: '' @ err))) \<and>
        (\<forall>result. StatusCode resp = 200 \<and> Unmarshal t body = Inr result \<longrightarrow>
           performSearch t b ctx idx q = (Some result, None))) \<and>
   (\<forall>k body err. ''server returned status '' @ fmt_d k @ '': '' @ body
                   \<noteq> ''failed to parse response: '' @ err)"
  by (auto simp: performSearch_unfold split: option.splits sum.splits)

theorem performSearch_error_cases_witness:
  "performSearch demo_tr demo_bs False ''idx'' ''bad''
     = (None, Some ''server returned status 404: nf'') \<and>
   performSearch demo_tr demo_bs False ''idx'' ''garbled''
     = (None, Some ''failed to parse response: invalid character'') \<and>
   performSearch demo_tr demo_bs False ''idx'' ''ok'' = (Some demo_result, None)"
proof -
  have u: "url_error demo_tr (baseURL demo_bs @ ''/api/index/'' @ ''idx'' @ ''/query'') = None"
    by (simp add: demo_tr_def)
  have d1: "Do demo_tr False (searchRequest demo_tr demo_bs ''idx'' ''bad'')
              = Inr \<lparr>StatusCode = 404, RespBody = Inr ''nf''\<rparr>"
    by (simp add: demo_tr_def searchRequest_def)
  have d2: "Do demo_tr False (searchRequest demo_tr demo_bs ''idx'' ''garbled'')
              = Inr \<lparr>StatusCode = 200, RespBody = Inr ''<''\<rparr>"
    by (simp add: demo_tr_def searchRequest_def)
  have d3: "Do demo_tr False (searchRequest demo_tr demo_bs ''idx'' ''ok'')
              = Inr \<lparr>StatusCode = 200, RespBody = Inr ''{}''\<rparr>"
    by (simp add: demo_tr_def searchRequest_def)
  have m2: "Unmarshal demo_tr ''<'' = Inl ''invalid character''" by (simp add: demo_tr_def)
  have m3: "Unmarshal demo_tr ''{}'' = Inr demo_result" by (simp add: demo_tr_def)
  have f: "fmt_d 404 = ''404''" by code_simp
  from performSearch_error_cases[of demo_tr demo_bs False "''idx''" "''bad''"] u d1 f
  have 1: "performSearch demo_tr demo_bs False ''idx'' ''bad''
     = (None, Some ''server returned status 404: nf'')" by simp
  from performSearch_error_cases[of demo_tr demo_bs False "''idx''" "''garbled''"] u d2 m2
  have 2: "performSearch demo_tr demo_bs False ''idx'' ''garbled''
     = (None, Some ''failed to parse response: invalid character'')" by simp
  from performSearch_error_cases[of demo_tr demo_bs False "''idx''" "''ok''"] u d3 m3
  have 3: "performSearch demo_tr demo_bs False ''idx'' ''ok'' = (Some demo_result, None)" by simp
  from 1 2 3 show ?thesis by simp
qed

subsection \<open>Every step consumes the variant\<close>

lemma sum_list_map_upd_nat:
  fixes f :: "'a \<Rightarrow> nat"
  shows "i < length xs \<Longrightarrow>
    sum_list (map f (xs[i := y])) + f (xs ! i) = sum_list (map f xs) + f y"
proof (induction xs arbitrary: i)
  case Nil then show ?case by simp
next
  case (Cons x xs) then show ?case by (cases i) auto
qed

lemma sum_list_upd_less:
  fixes f :: "'a \<Rightarrow> nat"
  assumes "i < length xs" "f y < f (xs ! i)"
  shows "sum_list (map f (xs[i := y])) < sum_list (map f xs)"
  using sum_list_map_upd_nat[OF assms(1), of f y] assms(2) by linarith

lemma msr_step:
  assumes "inv c s" "step c a s = Some s'" shows "msr c s' < msr c s"
  using assms
proof (cases rule: inv_step_cases)
  case (spawn i)
  with inv_lenD[OF assms(1)] have "sum_list (map grank ((gs s)[i := GStart])) < sum_list (map grank (gs s))"
    by (intro sum_list_upd_less) simp_all
  with spawn show ?thesis by (simp add: msr_def)
next
  case (handoff i j r)
  with inv_lenD[OF assms(1)] have "sum_list (map grank ((gs s)[j := GReleased r])) < sum_list (map grank (gs s))"
    by (intro sum_list_upd_less) simp_all
  with handoff show ?thesis by (simp add: msr_def)
next
  case (enter i)
  with inv_lenD[OF assms(1)] have "sum_list (map grank ((gs s)[i := GInCall])) < sum_list (map grank (gs s))"
    by (intro sum_list_upd_less) simp_all
  with enter show ?thesis by (simp add: msr_def)
next
  case (exchange i)
  with inv_lenD[OF assms(1)] have "sum_list (map grank ((gs s)[i := GExch (performSearch (tr c) (bs c) (cancelled s)
                                       (indexName c) (queries c ! i))])) < sum_list (map grank (gs s))"
    by (intro sum_list_upd_less) simp_all
  with exchange show ?thesis by (simp add: msr_def)
next
  case (leave i r)
  with inv_lenD[OF assms(1)] have "sum_list (map grank ((gs s)[i := GGot r])) < sum_list (map grank (gs s))"
    by (intro sum_list_upd_less) simp_all
  with leave show ?thesis by (simp add: msr_def)
next
  case (fail i r err)
  with inv_lenD[OF assms(1)] have "sum_list (map grank ((gs s)[i := GCounted r])) < sum_list (map grank (gs s))"
    by (intro sum_list_upd_less) simp_all
  with fail show ?thesis by (simp add: msr_def)
next
  case (succeed i r)
  with inv_lenD[OF assms(1)] have "sum_list (map grank ((gs s)[i := GCounted r])) < sum_list (map grank (gs s))"
    by (intro sum_list_upd_less) simp_all
  with succeed show ?thesis by (simp add: msr_def)
next
  case (store i r)
  with inv_lenD[OF assms(1)] have "sum_list (map grank ((gs s)[i := GWritten r])) < sum_list (map grank (gs s))"
    by (intro sum_list_upd_less) simp_all
  with store show ?thesis by (simp add: msr_def)
next
  case (release i r)
  with inv_lenD[OF assms(1)] have "sum_list (map grank ((gs s)[i := GReleased r])) < sum_list (map grank (gs s))"
    by (intro sum_list_upd_less) simp_all
  with release show ?thesis by (simp add: msr_def)
next
  case (finish i r)
  with inv_lenD[OF assms(1)] have "sum_list (map grank ((gs s)[i := GDone r])) < sum_list (map grank (gs s))"
    by (intro sum_list_upd_less) simp_all
  with finish show ?thesis by (simp add: msr_def)
qed (auto simp: msr_def)

lemma run_append:
  "run c (xs @ ys) s = (case run c xs s of None \<Rightarrow> None | Some s' \<Rightarrow> run c ys s')"
  by (induction xs arbitrary: s) (auto split: option.splits)

lemma msr_run:
  "inv c s \<Longrightarrow> run c sched s = Some s' \<Longrightarrow> length sched + msr c s' \<le> msr c s"
proof (induction sched arbitrary: s)
  case Nil then show ?case by simp
next
  case (Cons a as)
  then obtain s1 where s1: "step c a s = Some s1" "run c as s1 = Some s'"
    by (auto split: option.splits)
  from Cons.IH[OF inv_step[OF Cons.prems(1) s1(1)] s1(2)] msr_step[OF Cons.prems(1) s1(1)]
  show ?case by simp
qed

subsection \<open>Progress and the final state\<close>

lemma sum_list_zero_nth:
  fixes f :: "'a \<Rightarrow> int"
  assumes "\<And>x. 0 \<le> f x" "sum_list (map f xs) \<le> 0" "i < length xs"
  shows "f (xs ! i) = 0"
  using sum_list_nth_le[of f i xs] assms by (simp add: order_antisym)

lemma pending_nonneg: "0 \<le> pending m" by (cases m) simp_all
lemma sent_nonneg: "0 \<le> sent m" by (cases m) simp_all

lemma inv_not_panic: "inv c s \<Longrightarrow> 0 \<le> batchSize c \<Longrightarrow> mpc s \<noteq> MPanic"
  by (auto simp: inv_def inv_shape_def)

lemma go_enabled:
  assumes "inv c s" "i < length (gs s)" "holds (gs s ! i) = 1 \<or> (\<exists>r. gs s ! i = GReleased r)"
  shows "\<exists>s'. step c (Go i) s = Some s'"
proof -
  from assms(3) have nn: "gs s ! i \<noteq> GNone" by auto
  note tf = inv_thread_facts[OF assms(1,2) nn]
  have "holds (gs s ! i) \<le> sum_list (map holds (gs s))"
    by (rule sum_list_nth_le[OF holds_nonneg assms(2)])
  moreover from assms(1) have "int (rateLimiter s) = sum_list (map holds (gs s)) + sent (mpc s)"
    by (simp add: inv_def inv_sem_def)
  ultimately have rl: "holds (gs s ! i) = 1 \<Longrightarrow> 0 < rateLimiter s"
    using sent_nonneg[of "mpc s"] by linarith
  from assms(3) show ?thesis
  proof
    assume h: "holds (gs s ! i) = 1"
    with rl have "0 < rateLimiter s" by simp
    with h tf assms(2) show ?thesis
      by (cases "gs s ! i") (auto simp: step_def go_step_def split: option.splits)
  next
    assume "\<exists>r. gs s ! i = GReleased r"
    with tf assms(2) show ?thesis by (auto simp: step_def go_step_def)
  qed
qed

lemma progress:
  assumes I: "inv c s" and B: "1 \<le> batchSize c" and R: "mpc s \<noteq> MReturned"
  shows "\<exists>a s'. a \<noteq> Cancel \<and> step c a s = Some s'"
proof -
  from I B have np: "mpc s \<noteq> MPanic" by (simp add: inv_not_panic)
  have sem: "int (rateLimiter s) = sum_list (map holds (gs s)) + sent (mpc s)"
    and wgs: "wg s = sum_list (map live (gs s)) + pending (mpc s)"
    using I by (simp_all add: inv_def inv_sem_def inv_wg_def)
  have main_ok: "main_step c s \<noteq> None \<Longrightarrow> ?thesis"
    using np by (auto simp: step_def intro!: exI[of _ Main])
  show ?thesis
  proof (cases "mpc s")
    case MInit then show ?thesis by (intro main_ok) (simp add: main_step_def)
  next
    case (MLoop i) then show ?thesis by (intro main_ok) (simp add: main_step_def)
  next
    case (MGo i) then show ?thesis by (intro main_ok) (simp add: main_step_def)
  next
    case MReturned with R show ?thesis by simp
  next
    case MPanic with np show ?thesis by simp
  next
    case (MSend i)
    show ?thesis
    proof (cases "int (rateLimiter s) < batchSize c")
      case True with MSend show ?thesis by (intro main_ok) (simp add: main_step_def)
    next
      case False
      with B sem MSend have "0 < sum_list (map holds (gs s))" by simp
      then obtain j where j: "j < length (gs s)" "0 < holds (gs s ! j)"
        using sum_list_pos_ex by blast
      then have "holds (gs s ! j) = 1" by (cases "gs s ! j") simp_all
      with go_enabled[OF I j(1)] show ?thesis by blast
    qed
  next
    case MWait
    show ?thesis
    proof (cases "wg s = 0")
      case True with MWait show ?thesis by (intro main_ok) (simp add: main_step_def)
    next
      case False
      have "0 \<le> sum_list (map live (gs s))"
        by (rule sum_list_nonneg) (auto simp: live_nonneg)
      with False wgs MWait have "0 < sum_list (map live (gs s))" by simp
      then obtain j where j: "j < length (gs s)" "0 < live (gs s ! j)"
        using sum_list_pos_ex by blast
      then have "holds (gs s ! j) = 1 \<or> (\<exists>r. gs s ! j = GReleased r)"
        by (cases "gs s ! j") simp_all
      with go_enabled[OF I j(1)] show ?thesis by blast
    qed
  qed
qed

lemma can_finish:
  assumes "inv c s" "1 \<le> batchSize c"
  shows "\<exists>sched s'. Cancel \<notin> set sched \<and> run c sched s = Some s' \<and> mpc s' = MReturned"
  using assms(1)
proof (induction "msr c s" arbitrary: s rule: less_induct)
  case less
  show ?case
  proof (cases "mpc s = MReturned")
    case True
    then have "Cancel \<notin> set [] \<and> run c [] s = Some s \<and> mpc s = MReturned" by simp
    then show ?thesis by blast
  next
    case False
    from progress[OF less.prems assms(2) False]
    obtain a s1 where a: "a \<noteq> Cancel" "step c a s = Some s1" by blast
    from less.hyps[OF msr_step[OF less.prems a(2)] inv_step[OF less.prems a(2)]]
    obtain sched s' where "Cancel \<notin> set sched" "run c sched s1 = Some s'" "mpc s' = MReturned"
      by blast
    with a have "Cancel \<notin> set (a # sched) \<and> run c (a # sched) s = Some s' \<and> mpc s' = MReturned"
      by simp
    then show ?thesis by blast
  qed
qed

lemma returned_all_done:
  assumes "inv c s" "mpc s = MReturned" "j < length (queries c)"
  shows "\<exists>r. gs s ! j = GDone r"
proof -
  from assms have w: "sum_list (map live (gs s)) \<le> 0" and nn: "gs s ! j \<noteq> GNone"
    by (auto simp: inv_def inv_shape_def inv_wg_def inv_front_def)
  from assms have "j < length (gs s)" by (simp add: inv_lenD)
  from sum_list_zero_nth[OF live_nonneg w this] nn show ?thesis
    by (cases "gs s ! j") simp_all
qed

lemma cancelled_step:
  "inv c s \<Longrightarrow> step c a s = Some s' \<Longrightarrow> cancelled s' = (cancelled s \<or> a = Cancel)"
  by (cases rule: inv_step_cases) auto

lemma cancelled_run:
  "inv c s \<Longrightarrow> run c sched s = Some s' \<Longrightarrow> cancelled s' = (cancelled s \<or> Cancel \<in> set sched)"
proof (induction sched arbitrary: s)
  case Nil then show ?case by simp
next
  case (Cons a as)
  then obtain s1 where s1: "step c a s = Some s1" "run c as s1 = Some s'"
    by (auto split: option.splits)
  from Cons.IH[OF inv_step[OF Cons.prems(1) s1(1)] s1(2)] cancelled_step[OF Cons.prems(1) s1(1)]
  show ?case by auto
qed

lemma returned_result:
  assumes "inv c s" "mpc s = MReturned" "j < length (queries c)"
  shows "\<exists>cx. (cx \<longrightarrow> cancelled s) \<and>
           results s ! j = mkQueryResult j (performSearch (tr c) (bs c) cx (indexName c) (queries c ! j))"
proof -
  from returned_all_done[OF assms] obtain r where r: "gs s ! j = GDone r" by blast
  from assms(1) have "\<forall>j < length (queries c). \<forall>r. stored (gs s ! j) \<longrightarrow>
      locals (gs s ! j) = Some r \<longrightarrow> results s ! j = mkQueryResult j r"
    by (simp add: inv_def inv_store_def)
  with r assms(3) have "results s ! j = mkQueryResult j r" by (cases r) auto
  moreover from assms(1) have "\<forall>j < length (queries c). \<forall>r. locals (gs s ! j) = Some r \<longrightarrow>
        (\<exists>ctx. (ctx \<longrightarrow> cancelled s) \<and>
               r = performSearch (tr c) (bs c) ctx (indexName c) (queries c ! j))"
    by (simp add: inv_def inv_prov_def)
  with r assms(3) have "\<exists>cx. (cx \<longrightarrow> cancelled s) \<and>
      r = performSearch (tr c) (bs c) cx (indexName c) (queries c ! j)"
    by (cases r) auto
  ultimately show ?thesis by blast
qed

subsection \<open>A concrete run\<close>

lemma demo_run:
  "RunBatchSearch demo_cfg False demo_sched =
     Some (1, 1, [\<lparr>QueryIndex = 0, Result = Some demo_result, Error = None\<rparr>,
                  \<lparr>QueryIndex = 1, Result = None, Error = Some ''server returned status 404: nf''\<rparr>])"
  by code_simp

section \<open>The claims about RunBatchSearch\<close>

lemma RunBatchSearch_SomeD:
  assumes "RunBatchSearch c ctx sched = Some (sc, fc, rs)"
  obtains s where "run c sched (init c ctx) = Some s" "mpc s = MReturned"
    "sc = successCount s" "fc = failureCount s" "rs = results s" "inv c s"
proof -
  from assms obtain s where s: "run c sched (init c ctx) = Some s" "mpc s = MReturned"
    "sc = successCount s" "fc = failureCount s" "rs = results s"
    by (auto simp: RunBatchSearch_def split: option.splits if_splits)
  with inv_reach[OF s(1)] that show ?thesis by blast
qed

lemma RunBatchSearch_exists:
  assumes "1 \<le> batchSize c"
  shows "\<exists>sched. Cancel \<notin> set sched \<and> RunBatchSearch c ctx sched \<noteq> None"
proof -
  from can_finish[OF inv_init assms, of ctx]
  obtain sched s' where "Cancel \<notin> set sched" "run c sched (init c ctx) = Some s'" "mpc s' = MReturned"
    by blast
  then have "Cancel \<notin> set sched \<and> RunBatchSearch c ctx sched \<noteq> None"
    by (simp add: RunBatchSearch_def)
  then show ?thesis by blast
qed

lemma returned_length: "inv c s \<Longrightarrow> mpc s = MReturned \<Longrightarrow> length (results s) = length (queries c)"
  by (simp add: inv_def inv_shape_def)

text \<open>
  Claim C1. With a limit of at least 1 the call returns under every scheduler: some
  schedule ends in the \<open>return\<close>, no schedule is longer than the variant of the initial
  state, and a state in which no goroutine can move is the returned one. Whatever the
  order in which the goroutines ran, the returned collection has one entry per query and
  entry \<open>i\<close> is what \<open>performSearch\<close> gave for \<open>queries[i]\<close> (with the context seen as
  cancelled only if it was cancelled at entry or during the run).
\<close>

theorem RunBatchSearch_position_fidelity:
  assumes "1 \<le> batchSize c"
  shows "(\<exists>sched. Cancel \<notin> set sched \<and> RunBatchSearch c ctx sched \<noteq> None) \<and>
         (\<forall>sched s. run c sched (init c ctx) = Some s \<longrightarrow>
            length sched \<le> msr c (init c ctx) \<and>
            ((\<forall>a. a \<noteq> Cancel \<longrightarrow> step c a s = None) \<longrightarrow> mpc s = MReturned)) \<and>
         (\<forall>sched sc fc rs. RunBatchSearch c ctx sched = Some (sc, fc, rs) \<longrightarrow>
            length rs = length (queries c) \<and>
            (\<forall>i < length (queries c).
               \<exists>cx. (cx \<longrightarrow> ctx \<or> Cancel \<in> set sched) \<and>
                    rs ! i = mkQueryResult i
                               (performSearch (tr c) (bs c) cx (indexName c) (queries c ! i))))"
proof (intro conjI allI impI)
  show "\<exists>sched. Cancel \<notin> set sched \<and> RunBatchSearch c ctx sched \<noteq> None"
    by (rule RunBatchSearch_exists[OF assms])
next
  fix sched s assume r: "run c sched (init c ctx) = Some s"
  from msr_run[OF inv_init r] show "length sched \<le> msr c (init c ctx)" by simp
next
  fix sched s
  assume r: "run c sched (init c ctx) = Some s"
    and stuck: "\<forall>a. a \<noteq> Cancel \<longrightarrow> step c a s = None"
  show "mpc s = MReturned"
  proof (rule ccontr)
    assume "mpc s \<noteq> MReturned"
    from progress[OF inv_reach[OF r] assms this] stuck show False by auto
  qed
next
  fix sched sc fc rs assume "RunBatchSearch c ctx sched = Some (sc, fc, rs)"
  then show "length rs = length (queries c)"
    by (elim RunBatchSearch_SomeD) (simp add: returned_length)
next
  fix sched sc fc rs i
  assume R: "RunBatchSearch c ctx sched = Some (sc, fc, rs)" and i: "i < length (queries c)"
  from R obtain s where s: "run c sched (init c ctx) = Some s" "mpc s = MReturned"
    "rs = results s" "inv c s"
    by (rule RunBatchSearch_SomeD)
  from cancelled_run[OF inv_init s(1)] have "cancelled s = (ctx \<or> Cancel \<in> set sched)"
    by (simp add: init_def)
  with returned_result[OF s(4,2) i] s(3)
  show "\<exists>cx. (cx \<longrightarrow> ctx \<or> Cancel \<in> set sched) \<and>
          rs ! i = mkQueryResult i (performSearch (tr c) (bs c) cx (indexName c) (queries c ! i))"
    by simp
qed

theorem RunBatchSearch_position_fidelity_witness:
  "1 \<le> batchSize demo_cfg \<and>
   RunBatchSearch demo_cfg False demo_sched =
     Some (1, 1, [\<lparr>QueryIndex = 0, Result = Some demo_result, Error = None\<rparr>,
                  \<lparr>QueryIndex = 1, Result = None, Error = Some ''server returned status 404: nf''\<rparr>]) \<and>
   [\<lparr>QueryIndex = 0, Result = Some demo_result, Error = None\<rparr>,
    \<lparr>QueryIndex = 1, Result = None, Error = Some ''server returned status 404: nf''\<rparr>] ! 1
     = mkQueryResult 1 (performSearch (tr demo_cfg) (bs demo_cfg) False (indexName demo_cfg)
                          (queries demo_cfg ! 1))"
proof -
  have b: "1 \<le> batchSize demo_cfg" by (simp add: demo_cfg_def)
  have l: "(1::nat) < length (queries demo_cfg)" by (simp add: demo_cfg_def)
  have nc: "\<not> (False \<or> Cancel \<in> set demo_sched)" by (simp add: demo_sched_def)
  from RunBatchSearch_position_fidelity[OF b, of False]
  have "\<forall>sched sc fc rs. RunBatchSearch demo_cfg False sched = Some (sc, fc, rs) \<longrightarrow>
            length rs = length (queries demo_cfg) \<and>
            (\<forall>i < length (queries demo_cfg).
               \<exists>cx. (cx \<longrightarrow> False \<or> Cancel \<in> set sched) \<and>
                    rs ! i = mkQueryResult i
                               (performSearch (tr demo_cfg) (bs demo_cfg) cx (indexName demo_cfg)
                                  (queries demo_cfg ! i)))"
    by (elim conjE)
  from this[rule_format, OF demo_run, THEN conjunct2, rule_format, OF l] nc
  have "[\<lparr>QueryIndex = 0, Result = Some demo_result, Error = None\<rparr>,
    \<lparr>QueryIndex = 1, Result = None, Error = Some ''server returned status 404: nf''\<rparr>] ! 1
     = mkQueryResult 1 (performSearch (tr demo_cfg) (bs demo_cfg) False (indexName demo_cfg)
                          (queries demo_cfg ! 1))"
    by auto
  with b demo_run show ?thesis by simp
qed

lemma succs_fails_counted: "succs g + fails g = (if counted g then 1 else 0)"
  by (cases g) auto

lemma sum_succs_fails:
  "sum_list (map succs xs) + sum_list (map fails xs) = int (length (filter counted xs))"
proof (induction xs)
  case Nil then show ?case by simp
next
  case (Cons x xs)
  with succs_fails_counted[of x] show ?case by (cases "counted x") simp_all
qed

lemma sum_list_pointwise_filter:
  fixes f :: "'a \<Rightarrow> int"
  assumes "length xs = length ys"
    and "\<forall>j < length xs. f (xs ! j) = (if Q (ys ! j) then 1 else 0)"
  shows "sum_list (map f xs) = int (length (filter Q ys))"
  using assms
proof (induction xs ys rule: list_induct2)
  case Nil then show ?case by simp
next
  case (Cons x xs y ys)
  from Cons.prems have "f x = (if Q y then 1 else 0)" by auto
  moreover from Cons.prems have "\<forall>j < length xs. f (xs ! j) = (if Q (ys ! j) then 1 else 0)"
    by auto
  ultimately show ?case using Cons.IH by simp
qed

lemma mkQueryResult_Error [simp]: "Error (mkQueryResult i r) = snd r"
  by (cases "snd r") (simp_all add: mkQueryResult_def)

lemma mkQueryResult_QueryIndex [simp]: "QueryIndex (mkQueryResult i r) = int i"
  by (cases "snd r") (simp_all add: mkQueryResult_def)

lemma mkQueryResult_Result: "Result (mkQueryResult i r) = (if snd r = None then fst r else None)"
  by (cases "snd r") (simp_all add: mkQueryResult_def)

lemma returned_slot:
  assumes "inv c s" "mpc s = MReturned" "j < length (queries c)"
  shows "\<exists>r. gs s ! j = GDone r \<and> results s ! j = mkQueryResult j r"
proof -
  from returned_all_done[OF assms] obtain r where r: "gs s ! j = GDone r" by blast
  from assms(1) have "\<forall>j < length (queries c). \<forall>r. stored (gs s ! j) \<longrightarrow>
      locals (gs s ! j) = Some r \<longrightarrow> results s ! j = mkQueryResult j r"
    by (simp add: inv_def inv_store_def)
  with r assms(3) have "results s ! j = mkQueryResult j r" by (cases r) auto
  with r show ?thesis by blast
qed

lemma returned_counts:
  assumes "inv c s" "mpc s = MReturned"
  shows "successCount s = int (length (filter (\<lambda>q. Error q = None) (results s)))"
    and "failureCount s = int (length (filter (\<lambda>q. Error q \<noteq> None) (results s)))"
proof -
  have len: "length (gs s) = length (results s)"
    using assms by (simp add: inv_lenD returned_length)
  have pw: "\<forall>j < length (gs s). succs (gs s ! j) = (if Error (results s ! j) = None then 1 else 0)
             \<and> fails (gs s ! j) = (if Error (results s ! j) \<noteq> None then 1 else 0)"
  proof (intro allI impI)
    fix j assume "j < length (gs s)"
    then have "j < length (queries c)" using assms(1) by (simp add: inv_lenD)
    from returned_slot[OF assms this] obtain r where
      "gs s ! j = GDone r" "results s ! j = mkQueryResult j r" by blast
    then show "succs (gs s ! j) = (if Error (results s ! j) = None then 1 else 0)
             \<and> fails (gs s ! j) = (if Error (results s ! j) \<noteq> None then 1 else 0)"
      by simp
  qed
  from assms(1) have c: "successCount s = sum_list (map succs (gs s))"
    "failureCount s = sum_list (map fails (gs s))"
    by (simp_all add: inv_def inv_count_def)
  from pw show "successCount s = int (length (filter (\<lambda>q. Error q = None) (results s)))"
    unfolding c by (intro sum_list_pointwise_filter[OF len]) simp
  from pw show "failureCount s = int (length (filter (\<lambda>q. Error q \<noteq> None) (results s)))"
    unfolding c by (intro sum_list_pointwise_filter[OF len]) simp
qed

lemma filter_partition_length:
  "length (filter P xs) + length (filter (\<lambda>x. \<not> P x) xs) = length xs"
  by (induction xs) auto

text \<open>
  Claim C2. At every moment of a run the two counters together count the goroutines that
  have passed their \<open>atomic.AddInt64\<close>, each in exactly one counter. When the call
  returns, \<open>successCount + failureCount\<close> is the number of queries, \<open>successCount\<close> is
  the number of returned entries without an error and \<open>failureCount\<close> the number with one.
\<close>

theorem RunBatchSearch_counts:
  "(\<forall>sched s. run c sched (init c ctx) = Some s \<longrightarrow>
      successCount s + failureCount s = int (length (filter counted (gs s))) \<and>
      successCount s = sum_list (map succs (gs s)) \<and>
      failureCount s = sum_list (map fails (gs s))) \<and>
   (\<forall>sched sc fc rs. RunBatchSearch c ctx sched = Some (sc, fc, rs) \<longrightarrow>
      sc + fc = int (length (queries c)) \<and>
      sc = int (length (filter (\<lambda>q. Error q = None) rs)) \<and>
      fc = int (length (filter (\<lambda>q. Error q \<noteq> None) rs)))"
proof (intro conjI allI impI)
  fix sched s assume "run c sched (init c ctx) = Some s"
  then have "inv c s" by (rule inv_reach)
  then show c: "successCount s = sum_list (map succs (gs s))"
    "failureCount s = sum_list (map fails (gs s))"
    by (simp_all add: inv_def inv_count_def)
  show "successCount s + failureCount s = int (length (filter counted (gs s)))"
    unfolding c by (rule sum_succs_fails)
next
  fix sched sc fc rs assume R: "RunBatchSearch c ctx sched = Some (sc, fc, rs)"
  from R obtain s where s: "mpc s = MReturned" "sc = successCount s" "fc = failureCount s"
    "rs = results s" "inv c s"
    by (rule RunBatchSearch_SomeD)
  from returned_counts[OF s(5,1)] s
  show a: "sc = int (length (filter (\<lambda>q. Error q = None) rs))"
    and b: "fc = int (length (filter (\<lambda>q. Error q \<noteq> None) rs))" by simp_all
  from filter_partition_length[of "\<lambda>q. Error q = None" rs] returned_length[OF s(5,1)] s(4)
  show "sc + fc = int (length (queries c))" unfolding a b by simp
qed

theorem RunBatchSearch_counts_witness:
  "RunBatchSearch demo_cfg False demo_sched =
     Some (1, 1, [\<lparr>QueryIndex = 0, Result = Some demo_result, Error = None\<rparr>,
                  \<lparr>QueryIndex = 1, Result = None, Error = Some ''server returned status 404: nf''\<rparr>]) \<and>
   (1::int) + 1 = int (length (queries demo_cfg))"
proof -
  from RunBatchSearch_counts[of demo_cfg False]
  have "\<forall>sched sc fc rs. RunBatchSearch demo_cfg False sched = Some (sc, fc, rs) \<longrightarrow>
      sc + fc = int (length (queries demo_cfg)) \<and>
      sc = int (length (filter (\<lambda>q. Error q = None) rs)) \<and>
      fc = int (length (filter (\<lambda>q. Error q \<noteq> None) rs))"
    by (elim conjE)
  from this[rule_format, OF demo_run, THEN conjunct1] demo_run show ?thesis by simp
qed

text \<open>
  Claim C9. In the collection a completed call returns, entry \<open>i\<close> carries
  \<open>QueryIndex = i\<close> and exactly one of \<open>Result\<close> and \<open>Error\<close> is non-nil: \<open>Error\<close> when
  \<open>performSearch\<close> failed for \<open>queries[i]\<close>, \<open>Result\<close> when it succeeded.
\<close>

theorem RunBatchSearch_tagged_union:
  "\<forall>sched sc fc rs. RunBatchSearch c ctx sched = Some (sc, fc, rs) \<longrightarrow>
      length rs = length (queries c) \<and>
      (\<forall>i < length rs.
         QueryIndex (rs ! i) = int i \<and>
         ((Result (rs ! i) \<noteq> None) \<noteq> (Error (rs ! i) \<noteq> None)) \<and>
         (\<exists>cx. Result (rs ! i) = fst (performSearch (tr c) (bs c) cx (indexName c) (queries c ! i)) \<and>
               Error (rs ! i) = snd (performSearch (tr c) (bs c) cx (indexName c) (queries c ! i))))"
proof (intro allI impI)
  fix sched sc fc rs assume R: "RunBatchSearch c ctx sched = Some (sc, fc, rs)"
  from R obtain s where s: "mpc s = MReturned" "rs = results s" "inv c s"
    by (rule RunBatchSearch_SomeD)
  have len: "length rs = length (queries c)" using s by (simp add: returned_length)
  have "\<forall>i < length rs.
         QueryIndex (rs ! i) = int i \<and>
         ((Result (rs ! i) \<noteq> None) \<noteq> (Error (rs ! i) \<noteq> None)) \<and>
         (\<exists>cx. Result (rs ! i) = fst (performSearch (tr c) (bs c) cx (indexName c) (queries c ! i)) \<and>
               Error (rs ! i) = snd (performSearch (tr c) (bs c) cx (indexName c) (queries c ! i)))"
  proof (intro allI impI)
    fix i assume "i < length rs"
    with len have i: "i < length (queries c)" by simp
    from returned_result[OF s(3,1) i] s(2) obtain cx where
      cx: "rs ! i = mkQueryResult i (performSearch (tr c) (bs c) cx (indexName c) (queries c ! i))"
      by auto
    let ?r = "performSearch (tr c) (bs c) cx (indexName c) (queries c ! i)"
    from performSearch_one_nil[of "tr c" "bs c" cx "indexName c" "queries c ! i"]
    have R1: "Result (mkQueryResult i ?r) = fst ?r"
      by (auto simp: mkQueryResult_Result)
    from performSearch_one_nil[of "tr c" "bs c" cx "indexName c" "queries c ! i"]
    have "(Result (rs ! i) \<noteq> None) \<noteq> (Error (rs ! i) \<noteq> None)"
      unfolding cx R1 by auto
    moreover have "QueryIndex (rs ! i) = int i" unfolding cx by simp
    moreover have "Result (rs ! i) = fst ?r \<and> Error (rs ! i) = snd ?r"
      unfolding cx R1 by simp
    ultimately show "QueryIndex (rs ! i) = int i \<and>
         ((Result (rs ! i) \<noteq> None) \<noteq> (Error (rs ! i) \<noteq> None)) \<and>
         (\<exists>cx. Result (rs ! i) = fst (performSearch (tr c) (bs c) cx (indexName c) (queries c ! i)) \<and>
               Error (rs ! i) = snd (performSearch (tr c) (bs c) cx (indexName c) (queries c ! i)))"
      by blast
  qed
  with len show "length rs = length (queries c) \<and>
      (\<forall>i < length rs.
         QueryIndex (rs ! i) = int i \<and>
         ((Result (rs ! i) \<noteq> None) \<noteq> (Error (rs ! i) \<noteq> None)) \<and>
         (\<exists>cx. Result (rs ! i) = fst (performSearch (tr c) (bs c) cx (indexName c) (queries c ! i)) \<and>
               Error (rs ! i) = snd (performSearch (tr c) (bs c) cx (indexName c) (queries c ! i))))"
    by simp
qed

theorem RunBatchSearch_tagged_union_witness:
  "RunBatchSearch demo_cfg False demo_sched =
     Some (1, 1, [\<lparr>QueryIndex = 0, Result = Some demo_result, Error = None\<rparr>,
                  \<lparr>QueryIndex = 1, Result = None, Error = Some ''server returned status 404: nf''\<rparr>]) \<and>
   QueryIndex ([\<lparr>QueryIndex = 0, Result = Some demo_result, Error = None\<rparr>,
                \<lparr>QueryIndex = 1, Result = None,
                   Error = Some ''server returned status 404: nf''\<rparr>] ! 1) = int 1"
proof -
  have l: "(1::nat) < length [\<lparr>QueryIndex = 0, Result = Some demo_result, Error = None\<rparr>,
                  \<lparr>QueryIndex = 1, Result = None, Error = Some ''server returned status 404: nf''\<rparr>]"
    by simp
  from RunBatchSearch_tagged_union[of demo_cfg False, rule_format, OF demo_run,
      THEN conjunct2, rule_format, OF l, THEN conjunct1] demo_run
  show ?thesis by simp
qed

lemma in_call_le_holds: "int (length (filter in_call xs)) \<le> sum_list (map holds xs)"
proof (induction xs)
  case Nil then show ?case by simp
next
  case (Cons x xs)
  have "(if in_call x then 1 else 0) \<le> holds x" by (cases x) simp_all
  with Cons show ?case by (cases "in_call x") simp_all
qed

lemma in_call_bound:
  assumes "inv c s"
  shows "int (length (filter in_call (gs s))) \<le> int (rateLimiter s)"
    and "0 \<le> batchSize c \<Longrightarrow> int (rateLimiter s) \<le> batchSize c"
proof -
  from assms have "int (rateLimiter s) = sum_list (map holds (gs s)) + sent (mpc s)"
    by (simp add: inv_def inv_sem_def)
  with in_call_le_holds[of "gs s"] sent_nonneg[of "mpc s"]
  show "int (length (filter in_call (gs s))) \<le> int (rateLimiter s)" by linarith
  from assms show "0 \<le> batchSize c \<Longrightarrow> int (rateLimiter s) \<le> batchSize c"
    by (simp add: inv_def inv_sem_def)
qed

lemma filter_prefix_count:
  assumes "n \<le> length xs" "\<forall>j < n. P (xs ! j)" "\<forall>j. n \<le> j \<and> j < length xs \<longrightarrow> \<not> P (xs ! j)"
  shows "length (filter P xs) = n"
proof -
  have t: "filter P (take n xs) = take n xs"
    using assms(1,2) by (auto simp: filter_id_conv in_set_conv_nth)
  have d: "filter P (drop n xs) = []"
    using assms(1,3) by (auto simp: filter_empty_conv in_set_conv_nth)
  have "filter P xs = filter P (take n xs @ drop n xs)" by simp
  also have "\<dots> = take n xs" unfolding filter_append t d by simp
  finally show ?thesis using assms(1) by simp
qed

lemma burst_step:
  assumes "mpc s = MLoop n" "n < length (queries c)" "int (rateLimiter s) < batchSize c"
    "length (gs s) = length (queries c)"
  shows "run c [Main, Main, Main, Go n] s =
           Some (s\<lparr>wg := wg s + 1, rateLimiter := Suc (rateLimiter s),
                    gs := (gs s)[n := GInCall], mpc := MLoop (Suc n), calls := calls s @ [n]\<rparr>)"
  using assms by (simp add: step_def main_step_def go_step_def)

lemma burst_reach:
  assumes "n \<le> length (queries c)" "int n \<le> batchSize c"
  shows "\<exists>sched s. run c sched (init c ctx) = Some s \<and> mpc s = MLoop n \<and> rateLimiter s = n \<and>
           length (gs s) = length (queries c) \<and>
           (\<forall>j < n. gs s ! j = GInCall) \<and>
           (\<forall>j. n \<le> j \<and> j < length (queries c) \<longrightarrow> gs s ! j = GNone)"
  using assms
proof (induction n)
  case 0
  then have "run c [Main] (init c ctx) =
      Some ((init c ctx)\<lparr>results := replicate (length (queries c)) zeroQueryResult, mpc := MLoop 0\<rparr>)"
    by (simp add: step_def main_step_def init_def)
  then show ?case
    by (intro exI[of _ "[Main]"] exI) (auto simp: init_def)
next
  case (Suc n)
  then obtain sched s where s: "run c sched (init c ctx) = Some s" "mpc s = MLoop n"
    "rateLimiter s = n" "length (gs s) = length (queries c)"
    "\<forall>j < n. gs s ! j = GInCall"
    "\<forall>j. n \<le> j \<and> j < length (queries c) \<longrightarrow> gs s ! j = GNone"
    by auto
  let ?s' = "s\<lparr>wg := wg s + 1, rateLimiter := Suc (rateLimiter s),
               gs := (gs s)[n := GInCall], mpc := MLoop (Suc n), calls := calls s @ [n]\<rparr>"
  from Suc.prems s have b: "run c [Main, Main, Main, Go n] s = Some ?s'"
    by (intro burst_step) auto
  with s(1) have "run c (sched @ [Main, Main, Main, Go n]) (init c ctx) = Some ?s'"
    by (simp add: run_append)
  moreover from s Suc.prems have "mpc ?s' = MLoop (Suc n) \<and> rateLimiter ?s' = Suc n \<and>
           length (gs ?s') = length (queries c) \<and>
           (\<forall>j < Suc n. gs ?s' ! j = GInCall) \<and>
           (\<forall>j. Suc n \<le> j \<and> j < length (queries c) \<longrightarrow> gs ?s' ! j = GNone)"
    by (auto simp: nth_list_update less_Suc_eq)
  ultimately show ?case by blast
qed

text \<open>
  Claim C3. In every state of every run the number of goroutines inside
  \<open>performSearch\<close> is at most the number of elements in the channel, which is at most
  \<open>batchSize\<close>. The ceiling is exact: any number of goroutines up to \<open>batchSize\<close> (and up
  to the number of queries) can be inside \<open>performSearch\<close> together.
\<close>

theorem RunBatchSearch_admission_bound:
  assumes "0 \<le> batchSize c"
  shows "(\<forall>sched s. run c sched (init c ctx) = Some s \<longrightarrow>
            int (length (filter in_call (gs s))) \<le> int (rateLimiter s) \<and>
            int (rateLimiter s) \<le> batchSize c) \<and>
         (\<forall>n. n \<le> length (queries c) \<and> int n \<le> batchSize c \<longrightarrow>
            (\<exists>sched s. run c sched (init c ctx) = Some s \<and>
                       length (filter in_call (gs s)) = n))"
proof (intro conjI allI impI)
  fix sched s assume "run c sched (init c ctx) = Some s"
  then have i: "inv c s" by (rule inv_reach)
  from in_call_bound(1)[OF i] show "int (length (filter in_call (gs s))) \<le> int (rateLimiter s)" .
  from in_call_bound(2)[OF i assms] show "int (rateLimiter s) \<le> batchSize c" .
next
  fix n assume n: "n \<le> length (queries c) \<and> int n \<le> batchSize c"
  with burst_reach[of n c ctx] obtain sched s where
    s: "run c sched (init c ctx) = Some s" "length (gs s) = length (queries c)"
    "\<forall>j < n. gs s ! j = GInCall"
    "\<forall>j. n \<le> j \<and> j < length (queries c) \<longrightarrow> gs s ! j = GNone"
    by blast
  have "length (filter in_call (gs s)) = n"
    using n s by (intro filter_prefix_count) auto
  with s(1) show "\<exists>sched s. run c sched (init c ctx) = Some s \<and>
                       length (filter in_call (gs s)) = n" by blast
qed

lemma demo_two_in_call:
  "map_option (\<lambda>s. length (filter in_call (gs s)))
     (run demo_cfg [Main, Main, Main, Main, Go 0, Main, Main, Main, Go 1] (init demo_cfg False))
   = Some 2"
  by code_simp

theorem RunBatchSearch_admission_bound_witness:
  "0 \<le> batchSize demo_cfg \<and>
   map_option (\<lambda>s. length (filter in_call (gs s)))
     (run demo_cfg [Main, Main, Main, Main, Go 0, Main, Main, Main, Go 1] (init demo_cfg False))
   = Some 2 \<and> (2::int) \<le> batchSize demo_cfg"
proof -
  have b: "0 \<le> batchSize demo_cfg" by (simp add: demo_cfg_def)
  from demo_two_in_call obtain s where
    s: "run demo_cfg [Main, Main, Main, Main, Go 0, Main, Main, Main, Go 1] (init demo_cfg False) = Some s"
    "length (filter in_call (gs s)) = 2"
    by (auto simp: map_option_case split: option.splits)
  from RunBatchSearch_admission_bound[OF b, of False, THEN conjunct1, rule_format, OF s(1)] s(2)
  have "(2::int) \<le> batchSize demo_cfg" by simp
  with b demo_two_in_call show ?thesis by simp
qed

lemma count_list_all_zero: "(\<forall>j. count_list xs j = 0) \<Longrightarrow> xs = []"
  by (cases xs) (auto split: if_splits dest: spec)

lemma no_entered_no_calls:
  assumes "inv c s" "\<forall>j < length (queries c). \<not> entered (gs s ! j)"
  shows "calls s = []"
proof -
  from assms have "\<forall>j. count_list (calls s) j = 0" by (auto simp: inv_def inv_calls_def)
  then show ?thesis by (rule count_list_all_zero)
qed

text \<open>
  Claim C6. For the empty list of queries (and a capacity the channel can be made with)
  the caller is never blocked: its three steps end in the \<open>return\<close> with both counters 0
  and an empty collection, and in no run is \<open>performSearch\<close> entered.
\<close>

theorem RunBatchSearch_empty:
  assumes "queries c = []" "0 \<le> batchSize c"
  shows "RunBatchSearch c ctx [Main, Main, Main] = Some (0, 0, []) \<and>
         (\<forall>sched s. run c sched (init c ctx) = Some s \<longrightarrow>
            calls s = [] \<and> successCount s = 0 \<and> failureCount s = 0 \<and>
            (mpc s \<noteq> MReturned \<longrightarrow> step c Main s \<noteq> None)) \<and>
         (\<forall>sched sc fc rs. RunBatchSearch c ctx sched = Some (sc, fc, rs) \<longrightarrow>
            sc = 0 \<and> fc = 0 \<and> rs = [])"
proof -
  have first: "RunBatchSearch c ctx [Main, Main, Main] = Some (0, 0, [])"
    using assms by (simp add: RunBatchSearch_def step_def main_step_def init_def)
  have reach: "calls s = [] \<and> successCount s = 0 \<and> failureCount s = 0 \<and>
            (mpc s \<noteq> MReturned \<longrightarrow> step c Main s \<noteq> None) \<and>
            (mpc s = MReturned \<longrightarrow> results s = [])"
    if r: "run c sched (init c ctx) = Some s" for sched s
  proof -
    from r have i: "inv c s" by (rule inv_reach)
    with assms have g: "gs s = []" by (simp add: inv_def inv_shape_def)
    from i assms have c: "calls s = []" by (intro no_entered_no_calls[of c]) simp_all
    from i g have n: "successCount s = 0" "failureCount s = 0" "wg s = pending (mpc s)"
      by (simp_all add: inv_def inv_count_def inv_wg_def)
    from i assms have np: "mpc s \<noteq> MPanic" by (simp add: inv_not_panic)
    from i assms(1) have sh: "\<forall>k. mpc s \<noteq> MSend k \<and> mpc s \<noteq> MGo k"
      by (auto simp: inv_def inv_shape_def)
    have en: "mpc s \<noteq> MReturned \<longrightarrow> step c Main s \<noteq> None"
      using np sh n(3) by (cases "mpc s") (auto simp: step_def main_step_def)
    from i assms(1) have "mpc s = MReturned \<longrightarrow> results s = []"
      by (auto simp: inv_def inv_shape_def)
    with c n en show ?thesis by simp
  qed
  have fin: "sc = 0 \<and> fc = 0 \<and> rs = []"
    if R: "RunBatchSearch c ctx sched = Some (sc, fc, rs)" for sched sc fc rs
  proof -
    from R obtain s where s: "run c sched (init c ctx) = Some s" "mpc s = MReturned"
      "sc = successCount s" "fc = failureCount s" "rs = results s"
      by (rule RunBatchSearch_SomeD)
    from reach[OF s(1)] s show ?thesis by simp
  qed
  from first reach fin show ?thesis by blast
qed

theorem RunBatchSearch_empty_witness:
  "queries empty_cfg = [] \<and> 0 \<le> batchSize empty_cfg \<and>
   RunBatchSearch empty_cfg False [Main, Main, Main] = Some (0, 0, [])"
proof -
  have a: "queries empty_cfg = []" and b: "0 \<le> batchSize empty_cfg"
    by (simp_all add: empty_cfg_def)
  from RunBatchSearch_empty[OF a b, of False] a b show ?thesis by simp
qed

lemma front0_step:
  assumes "inv c s" "batchSize c \<le> 0" "front c (mpc s) = 0" "step c a s = Some s'"
  shows "front c (mpc s') = 0"
  using assms(1,4)
proof (cases rule: inv_step_cases)
  case (send i) with assms(2) show ?thesis by simp
next
  case (spawn i)
  from assms(1) have "int (rateLimiter s) = sum_list (map holds (gs s)) + sent (mpc s)"
    "0 \<le> batchSize c \<longrightarrow> int (rateLimiter s) \<le> batchSize c"
    "mpc s = MGo i \<longrightarrow> 0 \<le> batchSize c"
    by (auto simp: inv_def inv_sem_def inv_shape_def)
  moreover have "0 \<le> sum_list (map holds (gs s))"
    by (rule sum_list_nonneg) (auto simp: holds_nonneg)
  ultimately show ?thesis using spawn assms(2) by simp
next
  case (handoff i j r)
  with assms(1,3) show ?thesis by (auto simp: inv_def inv_front_def)
qed (use assms(3) in auto)

lemma front0_run:
  "inv c s \<Longrightarrow> batchSize c \<le> 0 \<Longrightarrow> front c (mpc s) = 0 \<Longrightarrow> run c sched s = Some s'
     \<Longrightarrow> front c (mpc s') = 0"
proof (induction sched arbitrary: s)
  case Nil then show ?case by simp
next
  case (Cons a as)
  then obtain s1 where s1: "step c a s = Some s1" "run c as s1 = Some s'"
    by (auto split: option.splits)
  from Cons.IH[OF inv_step[OF Cons.prems(1) s1(1)] Cons.prems(2)
      front0_step[OF Cons.prems(1,2,3) s1(1)] s1(2)]
  show ?case .
qed

lemma no_slot_no_unit:
  assumes "batchSize c \<le> 0" "run c sched (init c ctx) = Some s"
  shows "front c (mpc s) = 0" "\<forall>j < length (queries c). gs s ! j = GNone" "calls s = []"
proof -
  from assms(2) have i: "inv c s" by (rule inv_reach)
  from front0_run[OF inv_init assms(1) _ assms(2)] show f: "front c (mpc s) = 0"
    by (simp add: init_def)
  with i show g: "\<forall>j < length (queries c). gs s ! j = GNone" by (auto simp: inv_def inv_front_def)
  then show "calls s = []" by (intro no_entered_no_calls[OF i]) simp
qed

lemma returned_called_once:
  assumes "inv c s" "mpc s = MReturned"
  shows "count_list (calls s) j = (if j < length (queries c) then 1 else 0)"
proof (cases "j < length (queries c)")
  case True
  from returned_all_done[OF assms True] have "entered (gs s ! j)" by auto
  with True assms(1) show ?thesis by (simp add: inv_def inv_calls_def)
next
  case False with assms(1) show ?thesis by (simp add: inv_def inv_calls_def)
qed

text \<open>
  Claim C4, as stated, fails on the code: \<open>RunBatchSearch\<close> never inspects \<open>ctx\<close> and
  never validates \<open>batchSize\<close>. With the context cancelled at entry the goroutine is
  started, \<open>performSearch\<close> is entered and the call returns normally with a failure
  outcome; with capacity 0 and no queries the call returns normally as well.
\<close>

theorem RunBatchSearch_cancelled_at_entry_counterexample:
  "RunBatchSearch cancelled_cfg True cancelled_sched =
     Some (0, 1, [\<lparr>QueryIndex = 0, Result = None,
                    Error = Some ''failed to execute request: context canceled''\<rparr>]) \<and>
   map_option calls (run cancelled_cfg cancelled_sched (init cancelled_cfg True)) = Some [0] \<and>
   RunBatchSearch zero_cfg False [Main, Main, Main] = Some (0, 0, [])"
  by code_simp

text \<open>
  Claim C4, amended. A negative \<open>batchSize\<close> makes the first step panic in \<open>make\<close>, so
  no goroutine runs and the call never returns. With \<open>batchSize = 0\<close> no goroutine is
  ever started and \<open>performSearch\<close> is never entered: the call blocks for ever at its first
  send when there is a query, and returns the empty summary when there is none. A context
  already cancelled at entry does not stop the call: with \<open>batchSize\<close> at least 1 it
  returns, with one outcome per query and \<open>performSearch\<close> entered exactly once for every
  index.
\<close>

theorem RunBatchSearch_admission:
  "(batchSize c < 0 \<longrightarrow>
      map_option mpc (step c Main (init c ctx)) = Some MPanic \<and>
      (\<forall>sched s. run c sched (init c ctx) = Some s \<longrightarrow>
         (mpc s = MInit \<or> mpc s = MPanic) \<and> calls s = []) \<and>
      (\<forall>sched. RunBatchSearch c ctx sched = None)) \<and>
   (batchSize c = 0 \<longrightarrow>
      (\<forall>sched s. run c sched (init c ctx) = Some s \<longrightarrow>
         calls s = [] \<and> (\<forall>j < length (queries c). gs s ! j = GNone)) \<and>
      (queries c \<noteq> [] \<longrightarrow> (\<forall>sched. RunBatchSearch c ctx sched = None)) \<and>
      (queries c = [] \<longrightarrow> RunBatchSearch c ctx [Main, Main, Main] = Some (0, 0, []))) \<and>
   (1 \<le> batchSize c \<longrightarrow>
      (\<exists>sched. RunBatchSearch c True sched \<noteq> None) \<and>
      (\<forall>sched s. run c sched (init c True) = Some s \<and> mpc s = MReturned \<longrightarrow>
         length (results s) = length (queries c) \<and>
         (\<forall>j. count_list (calls s) j = (if j < length (queries c) then 1 else 0))))"
proof (intro conjI impI allI)
  assume "batchSize c < 0"
  then show "map_option mpc (step c Main (init c ctx)) = Some MPanic"
    by (simp add: step_def main_step_def init_def)
next
  fix sched s assume b: "batchSize c < 0" and r: "run c sched (init c ctx) = Some s"
  from inv_reach[OF r] b show "mpc s = MInit \<or> mpc s = MPanic"
    by (cases "mpc s") (auto simp: inv_def inv_shape_def)
  from b r show "calls s = []" by (intro no_slot_no_unit(3)[of c sched ctx s]) simp_all
next
  fix sched assume b: "batchSize c < 0"
  show "RunBatchSearch c ctx sched = None"
  proof (cases "run c sched (init c ctx)")
    case None then show ?thesis by (simp add: RunBatchSearch_def)
  next
    case (Some s)
    from inv_reach[OF Some] b have "mpc s \<noteq> MReturned" by (auto simp: inv_def inv_shape_def)
    with Some show ?thesis by (simp add: RunBatchSearch_def)
  qed
next
  fix sched s assume b: "batchSize c = 0" and r: "run c sched (init c ctx) = Some s"
  from b r show "calls s = []" by (intro no_slot_no_unit(3)[of c sched ctx s]) simp_all
next
  fix sched s j
  assume b: "batchSize c = 0" and r: "run c sched (init c ctx) = Some s"
    and j: "j < length (queries c)"
  from b have "batchSize c \<le> 0" by simp
  from no_slot_no_unit(2)[OF this r] j show "gs s ! j = GNone" by simp
next
  fix sched assume b: "batchSize c = 0" and q: "queries c \<noteq> []"
  show "RunBatchSearch c ctx sched = None"
  proof (cases "run c sched (init c ctx)")
    case None then show ?thesis by (simp add: RunBatchSearch_def)
  next
    case (Some s)
    from b have "batchSize c \<le> 0" by simp
    from no_slot_no_unit(1)[OF this Some] q have "mpc s \<noteq> MReturned" by auto
    with Some show ?thesis by (simp add: RunBatchSearch_def)
  qed
next
  assume "batchSize c = 0" "queries c = []"
  then show "RunBatchSearch c ctx [Main, Main, Main] = Some (0, 0, [])"
    by (simp add: RunBatchSearch_def step_def main_step_def init_def)
next
  assume "1 \<le> batchSize c"
  from RunBatchSearch_exists[OF this, of True]
  show "\<exists>sched. RunBatchSearch c True sched \<noteq> None" by blast
next
  fix sched s assume "run c sched (init c True) = Some s \<and> mpc s = MReturned"
  then have s: "inv c s" "mpc s = MReturned" by (auto intro: inv_reach)
  then show "length (results s) = length (queries c)" by (rule returned_length)
next
  fix sched s j assume "run c sched (init c True) = Some s \<and> mpc s = MReturned"
  then have s: "inv c s" "mpc s = MReturned" by (auto intro: inv_reach)
  then show "count_list (calls s) j = (if j < length (queries c) then 1 else 0)"
    by (rule returned_called_once)
qed

lemma cancelled_run_calls:
  "run cancelled_cfg cancelled_sched (init cancelled_cfg True) \<noteq> None \<and>
   map_option mpc (run cancelled_cfg cancelled_sched (init cancelled_cfg True)) = Some MReturned \<and>
   map_option calls (run cancelled_cfg cancelled_sched (init cancelled_cfg True)) = Some [0]"
  by code_simp

theorem RunBatchSearch_admission_witness:
  "1 \<le> batchSize cancelled_cfg \<and>
   map_option mpc (run cancelled_cfg cancelled_sched (init cancelled_cfg True)) = Some MReturned \<and>
   map_option calls (run cancelled_cfg cancelled_sched (init cancelled_cfg True)) = Some [0] \<and>
   count_list [0] (0::nat) = (if 0 < length (queries cancelled_cfg) then 1 else 0) \<and>
   batchSize zero_cfg = 0 \<and> queries zero_cfg = [] \<and>
   RunBatchSearch zero_cfg False [Main, Main, Main] = Some (0, 0, []) \<and>
   batchSize neg_cfg < 0 \<and>
   map_option mpc (step neg_cfg Main (init neg_cfg False)) = Some MPanic"
proof -
  have n: "batchSize neg_cfg < 0" by (simp add: neg_cfg_def)
  from RunBatchSearch_admission[of neg_cfg False, THEN conjunct1, rule_format, OF n,
      THEN conjunct1]
  have 3: "map_option mpc (step neg_cfg Main (init neg_cfg False)) = Some MPanic" .
  have b: "1 \<le> batchSize cancelled_cfg" by (simp add: cancelled_cfg_def)
  have z: "batchSize zero_cfg = 0" "queries zero_cfg = []" by (simp_all add: zero_cfg_def)
  from cancelled_run_calls obtain s where
    s: "run cancelled_cfg cancelled_sched (init cancelled_cfg True) = Some s"
    "mpc s = MReturned" "calls s = [0]"
    by auto
  from RunBatchSearch_admission[of cancelled_cfg True, THEN conjunct2, THEN conjunct2,
      rule_format, OF b, THEN conjunct2, rule_format, of cancelled_sched s, THEN conjunct2,
      rule_format, of 0] s
  have 1: "count_list [0] (0::nat) = (if 0 < length (queries cancelled_cfg) then 1 else 0)"
    by simp
  from RunBatchSearch_admission[of zero_cfg False, THEN conjunct2, THEN conjunct1,
      rule_format, OF z(1), THEN conjunct2, THEN conjunct2, rule_format, OF z(2)]
  have 2: "RunBatchSearch zero_cfg False [Main, Main, Main] = Some (0, 0, [])" .
  from b z n 1 2 3 cancelled_run_calls show ?thesis by simp
qed

lemma locals_step:
  assumes "inv c s" "step c a s = Some s'" "j < length (queries c)" "locals (gs s ! j) = Some r"
  shows "locals (gs s' ! j) = Some r"
  using assms(1,2)
  by (cases rule: inv_step_cases)
     (use assms(3,4) inv_lenD[OF assms(1)] in \<open>auto simp: nth_list_update split: if_splits\<close>)

lemma locals_run:
  "inv c s \<Longrightarrow> run c sched s = Some s' \<Longrightarrow> j < length (queries c) \<Longrightarrow>
   locals (gs s ! j) = Some r \<Longrightarrow> locals (gs s' ! j) = Some r"
proof (induction sched arbitrary: s)
  case Nil then show ?case by simp
next
  case (Cons a as)
  then obtain s1 where s1: "step c a s = Some s1" "run c as s1 = Some s'"
    by (auto split: option.splits)
  from Cons.IH[OF inv_step[OF Cons.prems(1) s1(1)] s1(2) Cons.prems(3)
      locals_step[OF Cons.prems(1) s1(1) Cons.prems(3,4)]]
  show ?case .
qed

lemma late_step:
  assumes "inv c s" "step c a s = Some s'" "j < length (queries c)" "cancelled s"
    "\<forall>r. locals (gs s ! j) = Some r \<longrightarrow>
         r = performSearch (tr c) (bs c) True (indexName c) (queries c ! j)"
  shows "\<forall>r. locals (gs s' ! j) = Some r \<longrightarrow>
         r = performSearch (tr c) (bs c) True (indexName c) (queries c ! j)"
  using assms(1,2)
  by (cases rule: inv_step_cases)
     (use assms(3,4,5) inv_lenD[OF assms(1)] in \<open>auto simp: nth_list_update split: if_splits\<close>)

lemma late_run:
  "inv c s \<Longrightarrow> run c sched s = Some s' \<Longrightarrow> j < length (queries c) \<Longrightarrow> cancelled s \<Longrightarrow>
   \<forall>r. locals (gs s ! j) = Some r \<longrightarrow>
         r = performSearch (tr c) (bs c) True (indexName c) (queries c ! j) \<Longrightarrow>
   \<forall>r. locals (gs s' ! j) = Some r \<longrightarrow>
         r = performSearch (tr c) (bs c) True (indexName c) (queries c ! j)"
proof (induction sched arbitrary: s)
  case Nil then show ?case by simp
next
  case (Cons a as)
  then obtain s1 where s1: "step c a s = Some s1" "run c as s1 = Some s'"
    by (auto split: option.splits)
  from cancelled_step[OF Cons.prems(1) s1(1)] Cons.prems(4) have c1: "cancelled s1" by simp
  from Cons.IH[OF inv_step[OF Cons.prems(1) s1(1)] s1(2) Cons.prems(3) c1
      late_step[OF Cons.prems(1) s1(1) Cons.prems(3,4,5)]]
  show ?case .
qed

lemma performSearch_cancelled_fails:
  assumes "\<forall>req. isl (Do t True req)"
  shows "fst (performSearch t b True idx q) = None" "snd (performSearch t b True idx q) \<noteq> None"
proof -
  from assms have "isl (Do t True (searchRequest t b idx q))" by simp
  then obtain e where "Do t True (searchRequest t b idx q) = Inl e"
    by (cases "Do t True (searchRequest t b idx q)") auto
  then show "fst (performSearch t b True idx q) = None" "snd (performSearch t b True idx q) \<noteq> None"
    by (simp_all add: performSearch_unfold split: option.splits)
qed


text \<open>
  Claim C5, as stated, fails on the code: the loop never looks at \<open>ctx\<close>. In this run
  the context is cancelled while index 1 has not been admitted; index 1 is admitted
  afterwards and \<open>performSearch\<close> is entered for it.
\<close>

theorem RunBatchSearch_admits_after_cancel_counterexample:
  "map_option gs (run demo_cfg cancel_pre (init demo_cfg False))
     = Some [GExch (Some demo_result, None), GNone] \<and>
   map_option cancelled (run demo_cfg (cancel_pre @ [Cancel]) (init demo_cfg False)) = Some True \<and>
   map_option calls (run demo_cfg (cancel_pre @ Cancel # cancel_post) (init demo_cfg False))
     = Some [0, 1] \<and>
   RunBatchSearch demo_cfg False (cancel_pre @ Cancel # cancel_post) =
     Some (1, 1, [\<lparr>QueryIndex = 0, Result = Some demo_result, Error = None\<rparr>,
                  \<lparr>QueryIndex = 1, Result = None,
                     Error = Some ''failed to execute request: context canceled''\<rparr>])"
  by code_simp

text \<open>
  Claim C5, amended. When the context is cancelled in the middle of a run, the caller
  goes on admitting every remaining index (it never inspects the signal) and waits for
  all goroutines: the run can always be completed, and a completed run has an outcome at
  every position. An index not yet admitted at the moment of cancellation has no call
  then and exactly one at the end. A goroutine whose exchange with the server
  (\<open>client.Do\<close> and the read of the body) had completed before the cancellation records
  the outcome of that exchange, also when it was still inside \<open>performSearch\<close> at that
  moment. A position whose exchange had not completed records what \<open>performSearch\<close>
  gives when the exchange meets the cancelled context, which is a failure whenever the
  client refuses a cancelled context.
\<close>

theorem RunBatchSearch_cancel_mid_run:
  assumes "1 \<le> batchSize c"
    and "run c pre (init c False) = Some s1"
    and "step c Cancel s1 = Some s2"
  shows "(\<exists>post s3. run c post s2 = Some s3 \<and> mpc s3 = MReturned) \<and>
         (\<forall>post s3. run c post s2 = Some s3 \<and> mpc s3 = MReturned \<longrightarrow>
            length (results s3) = length (queries c) \<and>
            (\<forall>j < length (queries c).
               (gs s1 ! j = GNone \<longrightarrow>
                  count_list (calls s1) j = 0 \<and> count_list (calls s3) j = 1) \<and>
               (locals (gs s1 ! j) \<noteq> None \<longrightarrow>
                  results s3 ! j = mkQueryResult j
                    (performSearch (tr c) (bs c) False (indexName c) (queries c ! j))) \<and>
               (locals (gs s1 ! j) = None \<longrightarrow>
                  results s3 ! j = mkQueryResult j
                    (performSearch (tr c) (bs c) True (indexName c) (queries c ! j))) \<and>
               (locals (gs s1 ! j) = None \<and> (\<forall>req. isl (Do (tr c) True req)) \<longrightarrow>
                  Result (results s3 ! j) = None \<and> Error (results s3 ! j) \<noteq> None)))"
proof -
  have i1: "inv c s1" using assms(2) by (rule inv_reach)
  have i2: "inv c s2" using i1 assms(3) by (rule inv_step)
  from cancelled_step[OF i1 assms(3)] have c2: "cancelled s2" by simp
  from assms(3) have nc1: "\<not> cancelled s1" and gs2: "gs s2 = gs s1"
    by (auto simp: step_def cancel_step_def split: if_splits)
  have ex: "\<exists>post s3. run c post s2 = Some s3 \<and> mpc s3 = MReturned"
    using can_finish[OF i2 assms(1)] by blast
  have fin: "length (results s3) = length (queries c) \<and>
            (\<forall>j < length (queries c).
               (gs s1 ! j = GNone \<longrightarrow>
                  count_list (calls s1) j = 0 \<and> count_list (calls s3) j = 1) \<and>
               (locals (gs s1 ! j) \<noteq> None \<longrightarrow>
                  results s3 ! j = mkQueryResult j
                    (performSearch (tr c) (bs c) False (indexName c) (queries c ! j))) \<and>
               (locals (gs s1 ! j) = None \<longrightarrow>
                  results s3 ! j = mkQueryResult j
                    (performSearch (tr c) (bs c) True (indexName c) (queries c ! j))) \<and>
               (locals (gs s1 ! j) = None \<and> (\<forall>req. isl (Do (tr c) True req)) \<longrightarrow>
                  Result (results s3 ! j) = None \<and> Error (results s3 ! j) \<noteq> None))"
    if r: "run c post s2 = Some s3" and m: "mpc s3 = MReturned" for post s3
  proof (intro conjI allI impI)
    have i3: "inv c s3" using i2 r by (rule inv_run)
    show "length (results s3) = length (queries c)" using i3 m by (rule returned_length)
    fix j assume j: "j < length (queries c)"
    from returned_slot[OF i3 m j] obtain r3 where
      r3: "gs s3 ! j = GDone r3" "results s3 ! j = mkQueryResult j r3" by blast
    {
      assume "gs s1 ! j = GNone"
      with i1 j show "count_list (calls s1) j = 0" by (simp add: inv_def inv_calls_def)
      from returned_called_once[OF i3 m, of j] j show "count_list (calls s3) j = 1" by simp
    }
    {
      assume "locals (gs s1 ! j) \<noteq> None"
      then obtain r1 where r1: "locals (gs s1 ! j) = Some r1" by auto
      from i1 have "\<forall>j < length (queries c). \<forall>r. locals (gs s1 ! j) = Some r \<longrightarrow>
          (\<exists>ctx. (ctx \<longrightarrow> cancelled s1) \<and>
             r = performSearch (tr c) (bs c) ctx (indexName c) (queries c ! j))"
        by (simp add: inv_def inv_prov_def)
      with j r1 have "\<exists>ctx. (ctx \<longrightarrow> cancelled s1) \<and>
             r1 = performSearch (tr c) (bs c) ctx (indexName c) (queries c ! j)"
        by blast
      with nc1 have p: "r1 = performSearch (tr c) (bs c) False (indexName c) (queries c ! j)"
        by (metis (full_types))
      from r1 gs2 have "locals (gs s2 ! j) = Some r1" by simp
      from locals_run[OF i2 r j this] r3(1) have "r3 = r1" by simp
      with r3(2) p show "results s3 ! j = mkQueryResult j
                    (performSearch (tr c) (bs c) False (indexName c) (queries c ! j))" by simp
    }
    {
      assume n: "locals (gs s1 ! j) = None"
      with gs2 have "\<forall>r. locals (gs s2 ! j) = Some r \<longrightarrow>
         r = performSearch (tr c) (bs c) True (indexName c) (queries c ! j)" by simp
      from late_run[OF i2 r j c2 this] r3(1)
      have "r3 = performSearch (tr c) (bs c) True (indexName c) (queries c ! j)" by simp
      with r3(2) show "results s3 ! j = mkQueryResult j
                    (performSearch (tr c) (bs c) True (indexName c) (queries c ! j))" by simp
    }
    {
      assume a: "locals (gs s1 ! j) = None \<and> (\<forall>req. isl (Do (tr c) True req))"
      with gs2 have "\<forall>r. locals (gs s2 ! j) = Some r \<longrightarrow>
         r = performSearch (tr c) (bs c) True (indexName c) (queries c ! j)" by simp
      from late_run[OF i2 r j c2 this] r3(1)
      have e: "r3 = performSearch (tr c) (bs c) True (indexName c) (queries c ! j)" by simp
      from a have d: "\<forall>req. isl (Do (tr c) True req)" by simp
      from performSearch_cancelled_fails[OF d, of "bs c" "indexName c" "queries c ! j"] r3(2)
      show "Result (results s3 ! j) = None" "Error (results s3 ! j) \<noteq> None"
        unfolding e by (auto simp: mkQueryResult_Result)
    }
  qed
  from ex fin show ?thesis by blast
qed


lemma cancel_run_returns:
  "map_option mpc (run demo_cfg (cancel_pre @ Cancel # cancel_post) (init demo_cfg False))
     = Some MReturned"
  by code_simp

lemma cancel_pre_gs:
  "map_option gs (run demo_cfg cancel_pre (init demo_cfg False))
     = Some [GExch (Some demo_result, None), GNone]"
  by code_simp

theorem RunBatchSearch_cancel_mid_run_witness:
  "1 \<le> batchSize demo_cfg \<and>
   (\<exists>s1 s2 s3. run demo_cfg cancel_pre (init demo_cfg False) = Some s1 \<and>
      step demo_cfg Cancel s1 = Some s2 \<and>
      run demo_cfg cancel_post s2 = Some s3 \<and> mpc s3 = MReturned \<and>
      in_call (gs s1 ! 0) \<and> gs s1 ! 1 = GNone \<and> count_list (calls s3) 1 = 1 \<and>
      Result (results s3 ! 1) = None \<and> Error (results s3 ! 1) \<noteq> None \<and>
      results s3 ! 0 = mkQueryResult 0
         (performSearch (tr demo_cfg) (bs demo_cfg) False (indexName demo_cfg)
            (queries demo_cfg ! 0)))"
proof -
  have b: "1 \<le> batchSize demo_cfg" by (simp add: demo_cfg_def)
  have d: "\<forall>req. isl (Do (tr demo_cfg) True req)" by (simp add: demo_cfg_def demo_tr_def)
  have l: "(0::nat) < length (queries demo_cfg)" "(1::nat) < length (queries demo_cfg)"
    by (simp_all add: demo_cfg_def)
  from cancel_run_returns obtain s3 where
    s3: "run demo_cfg (cancel_pre @ Cancel # cancel_post) (init demo_cfg False) = Some s3"
    "mpc s3 = MReturned" by auto
  from s3(1) obtain s1 s2 where
    s: "run demo_cfg cancel_pre (init demo_cfg False) = Some s1"
    "step demo_cfg Cancel s1 = Some s2" "run demo_cfg cancel_post s2 = Some s3"
    by (auto simp: run_append split: option.splits)
  from s(1) cancel_pre_gs have g: "gs s1 = [GExch (Some demo_result, None), GNone]" by simp
  then have g0: "locals (gs s1 ! 0) \<noteq> None" and g1: "locals (gs s1 ! 1) = None"
    and g1n: "gs s1 ! 1 = GNone" and g0c: "in_call (gs s1 ! 0)" by simp_all
  note T = RunBatchSearch_cancel_mid_run[OF b s(1,2), THEN conjunct2, rule_format,
      of cancel_post s3, OF conjI[OF s(3) s3(2)], THEN conjunct2, rule_format]
  from T[OF l(2), THEN conjunct1, rule_format, OF g1n]
  have 1: "count_list (calls s3) 1 = 1" by simp
  from T[OF l(2), THEN conjunct2, THEN conjunct2, THEN conjunct2, rule_format, OF conjI[OF g1 d]]
  have 2: "Result (results s3 ! 1) = None" "Error (results s3 ! 1) \<noteq> None" by simp_all
  from T[OF l(1), THEN conjunct2, THEN conjunct1, rule_format, OF g0]
  have 0: "results s3 ! 0 = mkQueryResult 0
         (performSearch (tr demo_cfg) (bs demo_cfg) False (indexName demo_cfg)
            (queries demo_cfg ! 0))" .
  have "run demo_cfg cancel_pre (init demo_cfg False) = Some s1 \<and>
      step demo_cfg Cancel s1 = Some s2 \<and>
      run demo_cfg cancel_post s2 = Some s3 \<and> mpc s3 = MReturned \<and>
      in_call (gs s1 ! 0) \<and> gs s1 ! 1 = GNone \<and> count_list (calls s3) 1 = 1 \<and>
      Result (results s3 ! 1) = None \<and> Error (results s3 ! 1) \<noteq> None \<and>
      results s3 ! 0 = mkQueryResult 0
         (performSearch (tr demo_cfg) (bs demo_cfg) False (indexName demo_cfg)
            (queries demo_cfg ! 0))"
    using s s3(2) g0c g1n 0 1 2 by (intro conjI)
  then have "\<exists>s1 s2 s3. run demo_cfg cancel_pre (init demo_cfg False) = Some s1 \<and>
      step demo_cfg Cancel s1 = Some s2 \<and>
      run demo_cfg cancel_post s2 = Some s3 \<and> mpc s3 = MReturned \<and>
      in_call (gs s1 ! 0) \<and> gs s1 ! 1 = GNone \<and> count_list (calls s3) 1 = 1 \<and>
      Result (results s3 ! 1) = None \<and> Error (results s3 ! 1) \<noteq> None \<and>
      results s3 ! 0 = mkQueryResult 0
         (performSearch (tr demo_cfg) (bs demo_cfg) False (indexName demo_cfg)
            (queries demo_cfg ! 0))"
    by (intro exI)
  with b show ?thesis by (intro conjI)
qed

section \<open>The claims about the query producer\<close>

lemma go_int_id: "- (2 ^ 63) \<le> k \<Longrightarrow> k < 2 ^ 63 \<Longrightarrow> go_int k = k"
  by (simp add: go_int_def signed_take_bit_int_eq_self_iff)

lemma queriesFor_shape [simp]:
  "map shape (queriesFor loc) = [0, 1, 2]" "length (queriesFor loc) = 3"
  by (simp_all add: queriesFor_def)

lemma append_slice_room:
  "length xs < cap \<Longrightarrow> append_slice g (xs, cap) x = Inr (xs @ [x], cap)"
  by (simp add: append_slice_def)

lemma append_slice_InrD:
  "append_slice g sl x = Inr sl' \<Longrightarrow> fst sl' = fst sl @ [x]"
  by (cases sl) (auto simp: append_slice_def split: if_splits option.splits)

lemma loop_Suc_Intn:
  "locations = [] \<Longrightarrow>
     makeQueries_loop g locations rng i (Suc k) qs = Inl IntnInvalidArgument"
  by (simp add: Intn_def)

lemma loop_Suc_index:
  assumes "locations \<noteq> []" "length (coords_of (locations ! (rng i mod length locations))) < 2"
  shows "makeQueries_loop g locations rng i (Suc k) qs =
           Inl (IndexOutOfRange (length (coords_of (locations ! (rng i mod length locations))))
                                (length (coords_of (locations ! (rng i mod length locations)))))"
proof -
  let ?n = "length (coords_of (locations ! (rng i mod length locations)))"
  from assms(2) have "?n = 0 \<or> ?n = 1" by linarith
  then show ?thesis using assms(1)
    by (auto simp: Intn_def index_def Let_def)
qed

lemma loop_Suc_unfold:
  assumes "locations \<noteq> []" "2 \<le> length (coords_of (locations ! (rng i mod length locations)))"
  shows "makeQueries_loop g locations rng i (Suc k) qs =
     (case append_slice g qs (queriesFor (locations ! (rng i mod length locations)) ! 0) of
        Inl p \<Rightarrow> Inl p
      | Inr qs1 \<Rightarrow>
        (case append_slice g qs1 (queriesFor (locations ! (rng i mod length locations)) ! 1) of
           Inl p \<Rightarrow> Inl p
         | Inr qs2 \<Rightarrow>
           (case append_slice g qs2 (queriesFor (locations ! (rng i mod length locations)) ! 2) of
              Inl p \<Rightarrow> Inl p
            | Inr qs3 \<Rightarrow> makeQueries_loop g locations rng (Suc i) k qs3)))"
proof -
  from assms(2) have "0 < length (coords_of (locations ! (rng i mod length locations)))"
    "1 < length (coords_of (locations ! (rng i mod length locations)))" by auto
  with assms(1) show ?thesis
    by (simp add: Intn_def index_def Let_def queriesFor_def cong: sum.case_cong)
qed

lemma loop_Suc_ok:
  assumes "locations \<noteq> []" "2 \<le> length (coords_of (locations ! (rng i mod length locations)))"
    "length xs + 3 \<le> cap"
  shows "makeQueries_loop g locations rng i (Suc k) (xs, cap) =
            makeQueries_loop g locations rng (Suc i) k
              (xs @ queriesFor (locations ! (rng i mod length locations)), cap)"
proof -
  let ?q = "queriesFor (locations ! (rng i mod length locations))"
  have q: "?q = [?q ! 0, ?q ! 1, ?q ! 2]" by (simp add: queriesFor_def)
  from assms(3) have
    a1: "append_slice g (xs, cap) (?q ! 0) = Inr (xs @ [?q ! 0], cap)" and
    a2: "append_slice g (xs @ [?q ! 0], cap) (?q ! 1) = Inr (xs @ [?q ! 0, ?q ! 1], cap)" and
    a3: "append_slice g (xs @ [?q ! 0, ?q ! 1], cap) (?q ! 2)
           = Inr (xs @ [?q ! 0, ?q ! 1, ?q ! 2], cap)"
    by (simp_all add: append_slice_room)
  show ?thesis
    unfolding loop_Suc_unfold[of locations rng i g k "(xs, cap)", OF assms(1,2)] a1 a2 a3 sum.case
    using q by simp
qed

lemma loop_Suc_InrD:
  assumes "makeQueries_loop g locations rng i (Suc k) (xs, cap) = Inr r"
  shows "locations \<noteq> []"
    "2 \<le> length (coords_of (locations ! (rng i mod length locations)))"
    "\<exists>cap'. makeQueries_loop g locations rng (Suc i) k
              (xs @ queriesFor (locations ! (rng i mod length locations)), cap') = Inr r"
proof -
  from assms show ne: "locations \<noteq> []"
    by (auto simp: loop_Suc_Intn simp del: makeQueries_loop.simps)
  show ok: "2 \<le> length (coords_of (locations ! (rng i mod length locations)))"
  proof (rule ccontr)
    assume "\<not> ?thesis"
    then have "length (coords_of (locations ! (rng i mod length locations))) < 2" by simp
    from loop_Suc_index[of locations rng i g k "(xs, cap)", OF ne this] assms show False
      by (simp del: makeQueries_loop.simps)
  qed
  let ?q = "queriesFor (locations ! (rng i mod length locations))"
  have q: "?q = [?q ! 0, ?q ! 1, ?q ! 2]" by (simp add: queriesFor_def)
  from assms[unfolded loop_Suc_unfold[of locations rng i g k "(xs, cap)", OF ne ok]]
  obtain s1 s2 s3 where
    s: "append_slice g (xs, cap) (?q ! 0) = Inr s1"
       "append_slice g s1 (?q ! 1) = Inr s2"
       "append_slice g s2 (?q ! 2) = Inr s3"
       "makeQueries_loop g locations rng (Suc i) k s3 = Inr r"
    by (auto split: sum.splits)
  from append_slice_InrD[OF s(1)] have 1: "fst s1 = xs @ [?q ! 0]" by simp
  from append_slice_InrD[OF s(2)] 1 have 2: "fst s2 = xs @ [?q ! 0, ?q ! 1]" by simp
  from append_slice_InrD[OF s(3)] 2 have "fst s3 = xs @ [?q ! 0, ?q ! 1, ?q ! 2]" by simp
  with q have "s3 = (xs @ ?q, snd s3)" by (metis prod.collapse)
  with s(4) show "\<exists>cap'. makeQueries_loop g locations rng (Suc i) k (xs @ ?q, cap') = Inr r"
    by metis
qed

lemma loop_ok_iff:
  assumes "length xs + 3 * k \<le> cap"
  shows "(\<exists>r. makeQueries_loop g locations rng i k (xs, cap) = Inr r) \<longleftrightarrow>
     (k = 0 \<or> (locations \<noteq> [] \<and>
        (\<forall>j < k. 2 \<le> length (coords_of (locations ! (rng (i + j) mod length locations))))))"
  using assms
proof (induction k arbitrary: i xs)
  case 0 then show ?case by simp
next
  case (Suc k)
  show ?case
  proof (cases "locations = []")
    case True then show ?thesis by (simp add: loop_Suc_Intn del: makeQueries_loop.simps)
  next
    case ne: False
    show ?thesis
    proof (cases "2 \<le> length (coords_of (locations ! (rng i mod length locations)))")
      case True
      from Suc.prems have room: "length xs + 3 \<le> cap" by simp
      note e = loop_Suc_ok[of locations rng i xs cap g k, OF ne True room]
      from Suc.prems
      have "length (xs @ queriesFor (locations ! (rng i mod length locations))) + 3 * k \<le> cap"
        by simp
      note ih = Suc.IH[OF this, of "Suc i"]
      show ?thesis unfolding e ih using ne True
        by (auto simp: All_less_Suc2)
    next
      case False
      then have "length (coords_of (locations ! (rng i mod length locations))) < 2" by simp
      from loop_Suc_index[of locations rng i g k "(xs, cap)", OF ne this] False show ?thesis
        by (auto simp del: makeQueries_loop.simps)
    qed
  qed
qed

lemma loop_result:
  "makeQueries_loop g locations rng i k (xs, cap) = Inr r \<Longrightarrow>
     length (fst r) = length xs + 3 * k \<and>
     map shape (fst r) = map shape xs @ concat (replicate k [0, 1, 2])"
proof (induction k arbitrary: i xs cap)
  case 0 then show ?case by auto
next
  case (Suc k)
  from loop_Suc_InrD(3)[OF Suc.prems] obtain cap' where
    "makeQueries_loop g locations rng (Suc i) k
       (xs @ queriesFor (locations ! (rng i mod length locations)), cap') = Inr r" by blast
  from Suc.IH[OF this] show ?case by simp
qed

lemma makeQueries_unfold:
  assumes "0 \<le> go_int (n * 3)" "go_int (n * 3) \<le> maxcap"
  shows "makeQueries maxcap g rng locations n =
           (case makeQueries_loop g locations rng 0 (nat n) ([], nat (go_int (n * 3))) of
              Inl p \<Rightarrow> Inl p
            | Inr sl \<Rightarrow> Inr (fst sl))"
  using assms by (simp add: makeQueries_def make_cap_def)

lemma makeQueries_cap:
  "go_int (n * 3) < 0 \<or> maxcap < go_int (n * 3) \<Longrightarrow>
     makeQueries maxcap g rng locations n = Inl MakeSliceCapOutOfRange"
  by (auto simp: makeQueries_def make_cap_def)

lemma makeQueries_nowrap:
  assumes "0 \<le> n" "n * 3 \<le> maxcap" "n * 3 < 2 ^ 63"
  shows "makeQueries maxcap g rng locations n =
           (case makeQueries_loop g locations rng 0 (nat n) ([], 3 * nat n) of
              Inl p \<Rightarrow> Inl p
            | Inr sl \<Rightarrow> Inr (fst sl))"
proof -
  from assms have g: "go_int (n * 3) = n * 3" by (intro go_int_id) simp_all
  from assms(1) have "nat (n * 3) = 3 * nat n" by (simp add: nat_mult_distrib)
  with makeQueries_unfold[of n maxcap g rng locations] g assms show ?thesis by simp
qed

lemma makeQueries_Inr_iff:
  assumes "0 \<le> n" "n * 3 \<le> maxcap" "n * 3 < 2 ^ 63"
  shows "(\<exists>qs. makeQueries maxcap g rng locations n = Inr qs) \<longleftrightarrow>
            (n = 0 \<or> (locations \<noteq> [] \<and>
               (\<forall>i < nat n. 2 \<le> length (coords_of (locations ! (rng i mod length locations))))))"
proof -
  have "(\<exists>qs. makeQueries maxcap g rng locations n = Inr qs) \<longleftrightarrow>
        (\<exists>r. makeQueries_loop g locations rng 0 (nat n) ([], 3 * nat n) = Inr r)"
    unfolding makeQueries_nowrap[OF assms] by (auto split: sum.splits)
  also have "\<dots> \<longleftrightarrow> (nat n = 0 \<or> (locations \<noteq> [] \<and>
        (\<forall>j < nat n. 2 \<le> length (coords_of (locations ! (rng (0 + j) mod length locations))))))"
    by (rule loop_ok_iff) simp
  finally show ?thesis using assms(1) by simp
qed

lemma makeQueries_length:
  assumes "makeQueries maxcap g rng locations n = Inr qs"
  shows "length qs = 3 * nat n" "map shape qs = concat (replicate (nat n) [0, 1, 2])"
proof -
  from assms have c: "0 \<le> go_int (n * 3)" "go_int (n * 3) \<le> maxcap"
    by (auto simp: makeQueries_def make_cap_def split: if_splits)
  from assms[unfolded makeQueries_unfold[OF c]] obtain r where
    r: "makeQueries_loop g locations rng 0 (nat n) ([], nat (go_int (n * 3))) = Inr r"
    "qs = fst r" by (auto split: sum.splits)
  from loop_result[OF r(1)] r(2)
  show "length qs = 3 * nat n" "map shape qs = concat (replicate (nat n) [0, 1, 2])"
    by simp_all
qed

text \<open>
  When \<open>n * 3\<close> wraps to a small capacity the slice is made too small and the outcome
  rests with the runtime's growth of the slice: with a runtime that cannot grow it, the
  third \<open>append\<close> panics.
\<close>

lemma makeQueries_wrapped_capacity:
  "go_int (6148914691236517206 * 3) = 2 \<and>
   makeQueries 1000 no_grow count_draws [good_loc] 6148914691236517206
     = Inl GrowSliceLenOutOfRange"
proof -
  have g: "go_int (6148914691236517206 * 3) = 2" by (simp add: go_int_def)
  have k: "nat 6148914691236517206 = Suc (nat 6148914691236517206 - 1)" by simp
  have l: "[good_loc] \<noteq> []"
    "2 \<le> length (coords_of ([good_loc] ! (count_draws 0 mod length [good_loc])))"
    by (simp_all add: good_loc_def)
  have "makeQueries_loop no_grow [good_loc] count_draws 0
          (Suc (nat 6148914691236517206 - 1)) ([], 2) = Inl GrowSliceLenOutOfRange"
    unfolding loop_Suc_unfold[of "[good_loc]" count_draws 0 no_grow _ "([], 2)", OF l]
    by (simp add: append_slice_def no_grow_def)
  with g k show ?thesis
    using makeQueries_unfold[of 6148914691236517206 1000 no_grow count_draws "[good_loc]"]
    by simp
qed

text \<open>
  Claim C10, as stated, fails on the code in its "otherwise" half: with no iteration to
  run, \<open>makeQueries\<close> returns for an empty list of locations, and a location with a
  single coordinate is harmless as long as the random choice never selects it.
\<close>

theorem makeQueries_returns_without_precondition_counterexample:
  "makeQueries 1000 no_grow count_draws [] 0 = Inr [] \<and>
   makeQueries 1000 no_grow first_draws [good_loc, short_loc] 1 = Inr (queriesFor good_loc)"
  by code_simp

text \<open>
  Claim C10, amended. Take a count \<open>n\<close> that is not negative and whose triple \<open>n * 3\<close>
  neither overflows a Go \<open>int\<close> nor exceeds the capacity \<open>make\<close> can allocate, so that the
  slice is made with room for all its elements. Then \<open>makeQueries\<close> returns a value
  exactly when there is no iteration to run or the list of locations is non-empty and
  every location the random choice selects has at least two coordinates. So a non-empty
  list in which every location has at least two coordinates always gives a value, of
  \<open>3 * n\<close> queries, and the index panic cannot occur. With at least one iteration an
  empty list panics in \<open>rand.Intn\<close>, and a first selected location with fewer than two
  coordinates panics at the index.
\<close>

theorem makeQueries_precondition:
  assumes "0 \<le> n" "n * 3 \<le> maxcap" "n * 3 < 2 ^ 63"
  shows "((\<exists>qs. makeQueries maxcap g rng locations n = Inr qs) \<longleftrightarrow>
            (n = 0 \<or> (locations \<noteq> [] \<and>
               (\<forall>i < nat n. 2 \<le> length (coords_of (locations ! (rng i mod length locations))))))) \<and>
         (locations \<noteq> [] \<and> (\<forall>l \<in> set locations. 2 \<le> length (coords_of l)) \<longrightarrow>
            (\<exists>qs. makeQueries maxcap g rng locations n = Inr qs \<and> length qs = 3 * nat n)) \<and>
         (0 < n \<and> locations = [] \<longrightarrow>
            makeQueries maxcap g rng locations n = Inl IntnInvalidArgument) \<and>
         (0 < n \<and> locations \<noteq> [] \<and>
          length (coords_of (locations ! (rng 0 mod length locations))) < 2 \<longrightarrow>
            makeQueries maxcap g rng locations n =
              Inl (IndexOutOfRange (length (coords_of (locations ! (rng 0 mod length locations))))
                                   (length (coords_of (locations ! (rng 0 mod length locations))))))"
proof -
  note u = makeQueries_nowrap[OF assms, of g rng locations]
  note a = makeQueries_Inr_iff[OF assms, of g rng locations]
  have b: "\<exists>qs. makeQueries maxcap g rng locations n = Inr qs \<and> length qs = 3 * nat n"
    if ne: "locations \<noteq> []" and all: "\<forall>l \<in> set locations. 2 \<le> length (coords_of l)"
  proof -
    from ne all have "\<forall>i < nat n. 2 \<le> length (coords_of (locations ! (rng i mod length locations)))"
      by simp
    with a ne obtain qs where q: "makeQueries maxcap g rng locations n = Inr qs" by blast
    from makeQueries_length(1)[OF q] q show ?thesis by blast
  qed
  have c: "makeQueries maxcap g rng locations n = Inl IntnInvalidArgument"
    if "0 < n" "locations = []"
  proof -
    from that(1) obtain k where "nat n = Suc k" by (cases "nat n") auto
    with that(2) show ?thesis unfolding u by (simp add: loop_Suc_Intn del: makeQueries_loop.simps)
  qed
  have d: "makeQueries maxcap g rng locations n =
              Inl (IndexOutOfRange (length (coords_of (locations ! (rng 0 mod length locations))))
                                   (length (coords_of (locations ! (rng 0 mod length locations)))))"
    if "0 < n" "locations \<noteq> []"
      "length (coords_of (locations ! (rng 0 mod length locations))) < 2"
  proof -
    from that(1) obtain k where k: "nat n = Suc k" by (cases "nat n") auto
    show ?thesis unfolding u k
      by (simp add: loop_Suc_index[of locations rng 0 g k, OF that(2,3)]
               del: makeQueries_loop.simps)
  qed
  from a b c d show ?thesis by blast
qed

theorem makeQueries_precondition_witness:
  "(0::int) \<le> 2 \<and> (2::int) * 3 \<le> 1000 \<and> (2::int) * 3 < 2 ^ 63 \<and>
   (\<exists>qs. makeQueries 1000 no_grow count_draws [good_loc] 2 = Inr qs \<and> length qs = 3 * nat 2) \<and>
   makeQueries 1000 no_grow count_draws [] 2 = Inl IntnInvalidArgument \<and>
   makeQueries 1000 no_grow count_draws [short_loc] 2 = Inl (IndexOutOfRange 1 1)"
proof -
  have g: "(0::int) \<le> 2" "(2::int) * 3 \<le> 1000" "(2::int) * 3 < 2 ^ 63" by simp_all
  have ok: "[good_loc] \<noteq> [] \<and> (\<forall>l \<in> set [good_loc]. 2 \<le> length (coords_of l))"
    by (simp add: good_loc_def)
  have sh: "0 < (2::int) \<and> [short_loc] \<noteq> [] \<and>
     length (coords_of ([short_loc] ! (count_draws 0 mod length [short_loc]))) < 2"
    by (simp add: short_loc_def count_draws_def)
  have sl: "length (coords_of ([short_loc] ! (count_draws 0 mod length [short_loc]))) = 1"
    by (simp add: short_loc_def count_draws_def)
  note T = makeQueries_precondition[OF g]
  from T[of no_grow count_draws "[good_loc]", THEN conjunct2, THEN conjunct1, rule_format, OF ok]
  have 1: "\<exists>qs. makeQueries 1000 no_grow count_draws [good_loc] 2 = Inr qs \<and>
                length qs = 3 * nat 2" .
  from T[of no_grow count_draws "[]", THEN conjunct2, THEN conjunct2, THEN conjunct1, rule_format]
  have 2: "makeQueries 1000 no_grow count_draws [] 2 = Inl IntnInvalidArgument" by simp
  from T[of no_grow count_draws "[short_loc]", THEN conjunct2, THEN conjunct2, THEN conjunct2,
      rule_format, OF sh]
  have 3: "makeQueries 1000 no_grow count_draws [short_loc] 2 = Inl (IndexOutOfRange 1 1)"
    unfolding sl .
  from g 1 2 3 show ?thesis by (intro conjI)
qed

lemma sdiv3_nonneg: "0 \<le> n \<Longrightarrow> n sdiv 3 = n div 3" for n :: int
  by (simp add: signed_divide_int_def sgn_if)

lemma sdiv3_neg: "n < 0 \<Longrightarrow> n sdiv 3 = - ((- n) div 3)" for n :: int
  by (simp add: signed_divide_int_def sgn_if)

lemma sdiv3_bounds:
  fixes n :: int
  shows "\<bar>n sdiv 3 * 3\<bar> \<le> \<bar>n\<bar>" "(0 \<le> n sdiv 3) = (- 3 < n)" "3 dvd n \<Longrightarrow> 3 * (n sdiv 3) = n"
proof -
  show "\<bar>n sdiv 3 * 3\<bar> \<le> \<bar>n\<bar>"
    by (cases "0 \<le> n") (simp_all add: sdiv3_nonneg sdiv3_neg; linarith)+
  show "(0 \<le> n sdiv 3) = (- 3 < n)"
    by (cases "0 \<le> n") (simp_all add: sdiv3_nonneg sdiv3_neg; linarith)+
  show "3 dvd n \<Longrightarrow> 3 * (n sdiv 3) = n"
    by (cases "0 \<le> n") (auto simp: sdiv3_nonneg sdiv3_neg)
qed

lemma sdiv3_range:
  fixes n :: int
  shows "min n 0 \<le> n sdiv 3 * 3" "n sdiv 3 * 3 \<le> max n 0"
  by (cases "0 \<le> n"; simp add: sdiv3_nonneg sdiv3_neg; linarith)+

lemma GenerateQueries_InrD:
  assumes "GenerateQueries env n = Inr (qs, out)"
  obtains data locations where "ReadFile env ''long-lat.json'' = Inr data"
    "UnmarshalRoots env data = Inr locations"
    "makeQueries (alloc_max env) (regrow env) (draws env) locations (n sdiv 3) = Inr qs"
    "MarshalIndent env qs = Inr out" "WriteFile env ''queries.json'' out = None"
  using assms by (auto simp: GenerateQueries_def split: sum.splits option.splits)

lemma makeQueries_InrD:
  assumes "makeQueries maxcap g rng locations m = Inr qs" "- (2 ^ 63) \<le> m * 3" "m * 3 < 2 ^ 63"
  shows "0 \<le> m" "length qs = 3 * nat m" "map shape qs = concat (replicate (nat m) [0, 1, 2])"
proof -
  from assms(2,3) have g: "go_int (m * 3) = m * 3" by (rule go_int_id)
  from assms(1) have c: "0 \<le> go_int (m * 3)" "go_int (m * 3) \<le> maxcap"
    by (auto simp: makeQueries_def make_cap_def split: if_splits)
  with g show "0 \<le> m" by simp
  from makeQueries_length[OF assms(1)]
  show "length qs = 3 * nat m" "map shape qs = concat (replicate (nat m) [0, 1, 2])" by simp_all
qed

lemma makeQueries_total:
  assumes "0 \<le> m" "m * 3 \<le> maxcap" "m * 3 < 2 ^ 63" "locations \<noteq> []"
    "\<forall>l \<in> set locations. 2 \<le> length (coords_of l)"
  shows "\<exists>qs. makeQueries maxcap g rng locations m = Inr qs"
proof -
  from assms(4,5)
  have "\<forall>i < nat m. 2 \<le> length (coords_of (locations ! (rng i mod length locations)))"
    by simp
  with assms(4) makeQueries_Inr_iff[OF assms(1,2,3), of g rng locations] show ?thesis by blast
qed

text \<open>
  Claim C7, as stated, fails on the code: \<open>GenerateQueries\<close> has no divisibility check.
  For the count 4 it does not reject; it writes the three queries of one iteration.
\<close>

theorem GenerateQueries_accepts_indivisible_counterexample:
  "GenerateQueries demo_gen 4 = Inr (queriesFor good_loc, ''LRC'') \<and>
   length (queriesFor good_loc) = 3 \<and> \<not> (3::int) dvd 4"
  by code_simp

text \<open>
  Claim C7, amended. \<open>GenerateQueries\<close> never rejects a count for not being a multiple
  of three: it runs \<open>n / 3\<close> iterations (division truncating towards zero), so whenever it
  completes it has produced \<open>3 * (n / 3)\<close> queries, in the repeating order location,
  relationship, conjunct. That is exactly \<open>n\<close> queries when three divides \<open>n\<close>, and fewer
  than \<open>n\<close> otherwise. It completes for every count from 0 up to the allocation bound
  when the locations file is readable and holds at least one location, every location
  has two coordinates, and encoding and writing succeed.
\<close>

theorem GenerateQueries_count:
  assumes "- (2 ^ 63) \<le> n" "n < 2 ^ 63"
  shows "(\<forall>qs out. GenerateQueries env n = Inr (qs, out) \<longrightarrow>
            int (length qs) = 3 * (n sdiv 3) \<and> - 3 < n \<and>
            map shape qs = concat (replicate (nat (n sdiv 3)) [0, 1, 2]) \<and>
            (3 dvd n \<longrightarrow> int (length qs) = n) \<and>
            (\<not> 3 dvd n \<longrightarrow> int (length qs) \<noteq> n)) \<and>
         (\<forall>data locations.
            ReadFile env ''long-lat.json'' = Inr data \<and>
            UnmarshalRoots env data = Inr locations \<and>
            locations \<noteq> [] \<and> (\<forall>l \<in> set locations. 2 \<le> length (coords_of l)) \<and>
            0 \<le> n \<and> n \<le> alloc_max env \<and>
            (\<forall>qs. \<exists>out. MarshalIndent env qs = Inr out) \<and>
            (\<forall>name d. WriteFile env name d = None) \<longrightarrow>
            (\<exists>qs out. GenerateQueries env n = Inr (qs, out)))"
proof -
  from sdiv3_range[of n] assms
  have r: "- (2 ^ 63) \<le> n sdiv 3 * 3" "n sdiv 3 * 3 < 2 ^ 63" by simp_all
  have a: "int (length qs) = 3 * (n sdiv 3) \<and> - 3 < n \<and>
            map shape qs = concat (replicate (nat (n sdiv 3)) [0, 1, 2]) \<and>
            (3 dvd n \<longrightarrow> int (length qs) = n) \<and>
            (\<not> 3 dvd n \<longrightarrow> int (length qs) \<noteq> n)"
    if G: "GenerateQueries env n = Inr (qs, out)" for qs out
  proof -
    from G obtain locations where
      m: "makeQueries (alloc_max env) (regrow env) (draws env) locations (n sdiv 3) = Inr qs"
      by (rule GenerateQueries_InrD)
    note D = makeQueries_InrD[OF m r]
    from D(1,2) have len: "int (length qs) = 3 * (n sdiv 3)" by simp
    from D(1) have n3: "- 3 < n" by (simp add: sdiv3_bounds(2))
    from len have d1: "3 dvd n \<longrightarrow> int (length qs) = n" by (simp add: sdiv3_bounds(3))
    from len have "3 dvd int (length qs)" by simp
    then have d2: "\<not> 3 dvd n \<longrightarrow> int (length qs) \<noteq> n" by auto
    from len n3 D(3) d1 d2 show ?thesis by simp
  qed
  have b: "\<exists>qs out. GenerateQueries env n = Inr (qs, out)"
    if R: "ReadFile env ''long-lat.json'' = Inr data"
      and U: "UnmarshalRoots env data = Inr locations"
      and ne: "locations \<noteq> []" and all: "\<forall>l \<in> set locations. 2 \<le> length (coords_of l)"
      and n0: "0 \<le> n" and nm: "n \<le> alloc_max env"
      and M: "\<forall>qs. \<exists>out. MarshalIndent env qs = Inr out"
      and W: "\<forall>name d. WriteFile env name d = None"
    for data locations
  proof -
    from n0 have m0: "0 \<le> n sdiv 3 * 3" "n sdiv 3 * 3 \<le> n" by (simp_all add: sdiv3_nonneg)
    from n0 have m1: "0 \<le> n sdiv 3" by (simp add: sdiv3_nonneg)
    from m0 nm have c: "n sdiv 3 * 3 \<le> alloc_max env" by simp
    from makeQueries_total[OF m1 c r(2) ne all, of "regrow env" "draws env"] obtain qs where
      q: "makeQueries (alloc_max env) (regrow env) (draws env) locations (n sdiv 3) = Inr qs"
      by blast
    from M obtain out where o: "MarshalIndent env qs = Inr out" by blast
    from R U q o W have "GenerateQueries env n = Inr (qs, out)"
      by (simp add: GenerateQueries_def)
    then show ?thesis by blast
  qed
  from a b show ?thesis by blast
qed

theorem GenerateQueries_count_witness:
  "- (2 ^ 63) \<le> (4::int) \<and> (4::int) < 2 ^ 63 \<and>
   GenerateQueries demo_gen 4 = Inr (queriesFor good_loc, ''LRC'') \<and>
   int (length (queriesFor good_loc)) = 3 * (4 sdiv 3) \<and>
   int (length (queriesFor good_loc)) \<noteq> 4 \<and>
   (\<exists>qs out. GenerateQueries demo_gen 6 = Inr (qs, out) \<and> int (length qs) = 6)"
proof -
  have r4: "- (2 ^ 63) \<le> (4::int)" "(4::int) < 2 ^ 63" by simp_all
  have r6: "- (2 ^ 63) \<le> (6::int)" "(6::int) < 2 ^ 63" by simp_all
  have g4: "GenerateQueries demo_gen 4 = Inr (queriesFor good_loc, ''LRC'')" by code_simp
  have nd: "\<not> (3::int) dvd 4" by simp
  have d6: "(3::int) dvd 6" by simp
  note A = GenerateQueries_count[OF r4, of demo_gen, THEN conjunct1, rule_format, OF g4]
  from A have 1: "int (length (queriesFor good_loc)) = 3 * (4 sdiv 3)" by (elim conjE)
  from A nd have 2: "int (length (queriesFor good_loc)) \<noteq> 4" by blast
  have pre: "ReadFile demo_gen ''long-lat.json'' = Inr ''[...]'' \<and>
            UnmarshalRoots demo_gen ''[...]'' = Inr [good_loc] \<and>
            [good_loc] \<noteq> [] \<and> (\<forall>l \<in> set [good_loc]. 2 \<le> length (coords_of l)) \<and>
            0 \<le> (6::int) \<and> 6 \<le> alloc_max demo_gen \<and>
            (\<forall>qs. \<exists>out. MarshalIndent demo_gen qs = Inr out) \<and>
            (\<forall>name d. WriteFile demo_gen name d = None)"
    by (simp add: demo_gen_def good_loc_def)
  from GenerateQueries_count[OF r6, of demo_gen, THEN conjunct2, rule_format, OF pre]
  obtain qs out where g6: "GenerateQueries demo_gen 6 = Inr (qs, out)" by blast
  from GenerateQueries_count[OF r6, of demo_gen, THEN conjunct1, rule_format, OF g6] d6
  have "int (length qs) = 6" by blast
  with g6 have 3: "\<exists>qs out. GenerateQueries demo_gen 6 = Inr (qs, out) \<and> int (length qs) = 6"
    by blast
  from r4 g4 1 2 3 show ?thesis by (intro conjI)
qed

end
